theory Spec2Isabelle
  imports Complex_Main "HOL-Library.AList" "HOL-Library.Sublist"
begin

section \<open>Values\<close>

text \<open>
  The plain Python values the library is fed: what \<^verbatim>\<open>ConfigValue.get\<close> tells apart with
  \<^verbatim>\<open>isinstance\<close>. A \<^verbatim>\<open>dict\<close> keeps its insertion order, so it is an association list
  (a well-formed one has distinct keys); keys are strings, as \<^verbatim>\<open>raw_key.split\<close> demands.
  A \<^verbatim>\<open>float\<close> is modelled by its exact value, a rational: infinities and NaN are outside
  the model. \<^verbatim>\<open>None\<close> stands for every value of no recognised shape.
\<close>

datatype raw =
    RDict "(string \<times> raw) list"
  | RStr string
  | RInt int
  | RBool bool
  | RFloat rat
  | RList "raw list"
  | RNone

text \<open>
  The wrapped values: \<^verbatim>\<open>Config(dict)\<close>, \<^verbatim>\<open>ConfigString(str)\<close>, \<^verbatim>\<open>ConfigInt(int)\<close>,
  \<^verbatim>\<open>ConfigFloat(float)\<close> and \<^verbatim>\<open>ConfigList(list)\<close>, each with its \<^verbatim>\<open>parental_path\<close>
  attribute (\<^verbatim>\<open>None\<close> or a string); \<^verbatim>\<open>ConfigList\<close> copies the list and leaves its elements
  unwrapped. \<open>PyNone\<close> is the \<^verbatim>\<open>None\<close> that \<^verbatim>\<open>ConfigValue.get\<close> returns for anything else.
\<close>

datatype cval =
    Config "string option" "(string \<times> cval) list"
  | ConfigString string "string option"
  | ConfigInt int "string option"
  | ConfigFloat rat "string option"
  | ConfigList "raw list" "string option"
  | PyNone

text \<open>
  The exceptions that leave the library. \<open>ConfigNotFoundError\<close> carries its message, as the
  class does; \<open>Exception\<close> is the bare exception \<^verbatim>\<open>get_config\<close> raises with the server's text.
\<close>

datatype error =
    KeyError string
  | TypeError
  | ValueError
  | JSONDecodeError
  | IndexError
  | AttributeError
  | NameError
  | TimeoutError
  | ConfigNotFoundError string
  | Exception string

fun is_Config :: "cval \<Rightarrow> bool" where
  "is_Config (Config pp es) = True"
| "is_Config _ = False"

text \<open>The builtin value a wrapped value is an instance of: what \<^verbatim>\<open>isinstance\<close>, \<^verbatim>\<open>==\<close> and
  \<^verbatim>\<open>json.dumps\<close> see.\<close>

fun plain :: "cval \<Rightarrow> raw" where
  "plain (Config pp es) = RDict (map (\<lambda>(k, v). (k, plain v)) es)"
| "plain (ConfigString s pp) = RStr s"
| "plain (ConfigInt i pp) = RInt i"
| "plain (ConfigFloat x pp) = RFloat x"
| "plain (ConfigList xs pp) = RList xs"
| "plain PyNone = RNone"

section \<open>Paths\<close>

text \<open>\<^verbatim>\<open>s.split(sep, 1)\<close> for a one-character separator: the text before the first
  separator, and the text after it when there is one (\<^verbatim>\<open>None\<close> when the list has one
  element only).\<close>

definition split_once :: "char \<Rightarrow> string \<Rightarrow> string \<times> string option" where
  "split_once sep s =
     (takeWhile (\<lambda>c. c \<noteq> sep) s,
      case dropWhile (\<lambda>c. c \<noteq> sep) s of [] \<Rightarrow> None | c # rest \<Rightarrow> Some rest)"

text \<open>\<^verbatim>\<open>raw_key.split('/', 1)\<close>: \<^verbatim>\<open>key\<close> and \<^verbatim>\<open>key_tail\<close>.\<close>

definition split1 :: "string \<Rightarrow> string \<times> string option" where
  "split1 raw_key = split_once (CHR ''/'') raw_key"


fun join_slash :: "string list \<Rightarrow> string" where
  "join_slash [] = []"
| "join_slash [x] = x"
| "join_slash (x # y # ys) = x @ ''/'' @ join_slash (y # ys)"

text \<open>\<^verbatim>\<open>f"{self.parental_path}/{key}" if self.parental_path else key\<close>: \<^verbatim>\<open>None\<close> and the empty
  string are both false.\<close>

fun child_path :: "string option \<Rightarrow> string \<Rightarrow> string" where
  "child_path None key = key"
| "child_path (Some p) key = (if p = [] then key else p @ ''/'' @ key)"

lemma split1_tail_shorter: "split1 raw_key = (key, Some key_tail) \<Longrightarrow> length key_tail < length raw_key"
proof -
  assume a: "split1 raw_key = (key, Some key_tail)"
  then obtain c where d: "dropWhile (\<lambda>c. c \<noteq> CHR ''/'') raw_key = c # key_tail"
    by (auto simp: split1_def split_once_def split: list.splits)
  have "length (dropWhile (\<lambda>c. c \<noteq> CHR ''/'') raw_key) \<le> length raw_key"
    by (rule length_dropWhile_le)
  with d show ?thesis by simp
qed

section \<open>Assignment and lookup\<close>

text \<open>
  \<^verbatim>\<open>Config.__setitem__\<close>, \<^verbatim>\<open>ConfigValue.get\<close> and the loop of \<^verbatim>\<open>Config.__init__\<close> call one
  another. \<open>setitem\<close> changes \<^verbatim>\<open>self\<close> in place, so it returns the object as the call leaves
  it together with the exception raised, if any: a node created on the way down stays
  when a later step raises. The item assignment \<^verbatim>\<open>self[key][key_tail] = value\<close> dispatches
  on the child: a \<open>Config\<close> runs \<open>setitem\<close> again, every other value has no item
  assignment for a string key and raises \<^verbatim>\<open>TypeError\<close>.
  \<open>ConfigValue_get\<close> and \<open>Config_fill\<close> build a new object; when they raise, it is lost.
\<close>

function setitem :: "cval \<Rightarrow> string \<Rightarrow> raw \<Rightarrow> cval \<times> error option"
  and ConfigValue_get :: "raw \<Rightarrow> string option \<Rightarrow> error + cval"
  and Config_fill :: "cval \<Rightarrow> (string \<times> raw) list \<Rightarrow> error + cval"
where
  "setitem (Config pp es) raw_key v =
     (case split1 raw_key of
        (key, None) \<Rightarrow>
          (case ConfigValue_get v (Some (child_path pp key)) of
             Inl e \<Rightarrow> (Config pp es, Some e)
           | Inr val \<Rightarrow> (Config pp (AList.update key val es), None))
      | (key, Some key_tail) \<Rightarrow>
          if key = [] \<and> key_tail \<noteq> [] then setitem (Config pp es) key_tail v
          else if key_tail = [] then
            (case ConfigValue_get v (Some (child_path pp key)) of
               Inl e \<Rightarrow> (Config pp es, Some e)
             | Inr val \<Rightarrow> (Config pp (AList.update key val es), None))
          else
            (case map_of es key of
               None \<Rightarrow>
                 (case setitem (Config None []) key_tail v of
                    (child, err) \<Rightarrow> (Config pp (AList.update key child es), err))
             | Some c \<Rightarrow>
                 (case setitem c key_tail v of
                    (child, err) \<Rightarrow> (Config pp (AList.update key child es), err))))"
| "setitem (ConfigString s pp) raw_key v = (ConfigString s pp, Some TypeError)"
| "setitem (ConfigInt i pp) raw_key v = (ConfigInt i pp, Some TypeError)"
| "setitem (ConfigFloat x pp) raw_key v = (ConfigFloat x pp, Some TypeError)"
| "setitem (ConfigList xs pp) raw_key v = (ConfigList xs pp, Some TypeError)"
| "setitem PyNone raw_key v = (PyNone, Some TypeError)"
| "ConfigValue_get (RDict kvs) parental_path = Config_fill (Config parental_path []) kvs"
| "ConfigValue_get (RStr s) parental_path = Inr (ConfigString s parental_path)"
| "ConfigValue_get (RInt i) parental_path = Inr (ConfigInt i parental_path)"
| "ConfigValue_get (RBool b) parental_path = Inr (ConfigInt (if b then 1 else 0) parental_path)"
| "ConfigValue_get (RFloat x) parental_path = Inr (ConfigFloat x parental_path)"
| "ConfigValue_get (RList xs) parental_path = Inr (ConfigList xs parental_path)"
| "ConfigValue_get RNone parental_path = Inr PyNone"
| "Config_fill self [] = Inr self"
| "Config_fill self ((key, val) # contents) =
     (case setitem self key val of
        (self', None) \<Rightarrow> Config_fill self' contents
      | (self', Some e) \<Rightarrow> Inl e)"
  by pat_completeness auto
termination
  by (relation "inv_image (less_than <*lex*> less_than <*lex*> less_than)
        (\<lambda>x. case x of
           Inl (self, raw_key, v) \<Rightarrow> (size v, 1::nat, length raw_key)
         | Inr (Inl (v, pp)) \<Rightarrow> (size v, 0, 0)
         | Inr (Inr (self, kvs)) \<Rightarrow> (size_list (size_prod (\<lambda>x. 0) size) kvs, 2, 0))")
     (auto dest: split1_tail_shorter [OF sym])


text \<open>
  \<^verbatim>\<open>Config.__getitem__\<close>. \<^verbatim>\<open>dict.__getitem__\<close> raises \<^verbatim>\<open>KeyError\<close> on an absent key;
  \<^verbatim>\<open>val[key_tail]\<close> dispatches on the value found: a \<open>Config\<close> looks the tail up, every
  other value raises \<^verbatim>\<open>TypeError\<close> on a string index.
\<close>

function getitem :: "cval \<Rightarrow> string \<Rightarrow> error + cval" where
  "getitem (Config pp es) raw_key =
     (case split1 raw_key of
        (key, None) \<Rightarrow>
          (case map_of es key of None \<Rightarrow> Inl (KeyError key) | Some val \<Rightarrow> Inr val)
      | (key, Some key_tail) \<Rightarrow>
          if key = [] \<and> key_tail \<noteq> [] then getitem (Config pp es) key_tail
          else
            (case map_of es key of
               None \<Rightarrow> Inl (KeyError key)
             | Some val \<Rightarrow> if key_tail \<noteq> [] then getitem val key_tail else Inr val))"
| "getitem (ConfigString s pp) raw_key = Inl TypeError"
| "getitem (ConfigInt i pp) raw_key = Inl TypeError"
| "getitem (ConfigFloat x pp) raw_key = Inl TypeError"
| "getitem (ConfigList xs pp) raw_key = Inl TypeError"
| "getitem PyNone raw_key = Inl TypeError"
  by pat_completeness auto
termination
  by (relation "measure (\<lambda>(self, raw_key). length raw_key)")
     (auto dest: split1_tail_shorter [OF sym])

text \<open>\<^verbatim>\<open>Config.__init__\<close> for the contents the module passes: \<^verbatim>\<open>None\<close> or a \<^verbatim>\<open>dict\<close>.\<close>

fun Config_init :: "(string \<times> raw) list option \<Rightarrow> string option \<Rightarrow> error + cval" where
  "Config_init None parental_path = Inr (Config parental_path [])"
| "Config_init (Some contents) parental_path = Config_fill (Config parental_path []) contents"

text \<open>\<^verbatim>\<open>Config.from_kvlist\<close>: \<^verbatim>\<open>cls()\<close>, then one assignment for each pair.\<close>

definition from_kvlist :: "(string \<times> raw) list \<Rightarrow> error + cval" where
  "from_kvlist kv_list = Config_fill (Config None []) kv_list"

section \<open>Flattening\<close>

text \<open>\<^verbatim>\<open>Config.keys\<close> calls itself on every child that is a \<open>Config\<close>. The method
  (like \<^verbatim>\<open>deep_items\<close>) exists on a \<open>Config\<close> only; the last equation only makes the
  function total.\<close>

fun keys :: "cval \<Rightarrow> string list" where
  "keys (Config pp es) =
     concat (map (\<lambda>(k, v). if is_Config v then map (\<lambda>sub. k @ ''/'' @ sub) (keys v) else [k]) es)"
| "keys _ = []"

text \<open>\<^verbatim>\<open>Config.deep_items\<close> expands a child that is a \<open>Config\<close> with \<^verbatim>\<open>v.items()\<close>, which
  \<open>Config\<close> inherits from \<^verbatim>\<open>dict\<close>: the child's own entries.\<close>

fun deep_items :: "cval \<Rightarrow> (string \<times> cval) list" where
  "deep_items (Config pp es) =
     concat (map (\<lambda>(k, v).
        case v of
          Config pp' es' \<Rightarrow> map (\<lambda>(subk, subv). (k @ ''/'' @ subk, subv)) es'
        | _ \<Rightarrow> [(k, v)]) es)"
| "deep_items _ = []"


section \<open>Mandatory lookup\<close>






section \<open>Serialisation\<close>

text \<open>
  \<^verbatim>\<open>json.dumps\<close> and \<^verbatim>\<open>json.loads\<close> belong to Python's library, not to this module: they
  are the parameters \<open>dumps\<close> and \<open>loads\<close>. \<open>dumps\<close> sees the builtin value of what it is given
  and may raise; \<open>loads\<close> gives plain values or raises.
  \<^verbatim>\<open>f"{self.parental_path}"\<close> prints \<^verbatim>\<open>None\<close> as the text \<^verbatim>\<open>None\<close>.
\<close>

fun path_text :: "string option \<Rightarrow> string" where
  "path_text None = ''None''"
| "path_text (Some p) = p"

fun serialise :: "(raw \<Rightarrow> error + string) \<Rightarrow> cval \<Rightarrow> error + string" where
  "serialise dumps PyNone = Inl AttributeError"
| "serialise dumps self =
     (case dumps (plain self) of
        Inl e \<Rightarrow> Inl e
      | Inr js \<Rightarrow>
          Inr (path_text (case self of
                 Config pp es \<Rightarrow> pp | ConfigString s pp \<Rightarrow> pp | ConfigInt i pp \<Rightarrow> pp
               | ConfigFloat x pp \<Rightarrow> pp | ConfigList xs pp \<Rightarrow> pp | PyNone \<Rightarrow> None) @ '':'' @ js))"

text \<open>\<^verbatim>\<open>Config.deserialise\<close>: unpacking \<^verbatim>\<open>raw_string.split(':', 1)\<close> into two names raises
  \<^verbatim>\<open>ValueError\<close> when there is no colon.\<close>

definition deserialise :: "(string \<Rightarrow> error + raw) \<Rightarrow> string \<Rightarrow> error + cval" where
  "deserialise loads raw_string =
     (case split_once (CHR '':'') raw_string of
        (parental_path, None) \<Rightarrow> Inl ValueError
      | (parental_path, Some content_string) \<Rightarrow>
          (case loads content_string of
             Inl e \<Rightarrow> Inl e
           | Inr decoded_contents \<Rightarrow> ConfigValue_get decoded_contents (Some parental_path)))"

section \<open>Equality\<close>

text \<open>
  Python's \<^verbatim>\<open>==\<close> on builtin values, which the wrapper classes inherit. Numbers compare
  by value whatever their type (\<^verbatim>\<open>1 == 1.0 == True\<close>); dictionaries compare as mappings,
  whatever their order; lists compare element by element; values of different kinds are
  unequal.
\<close>

fun num_val :: "raw \<Rightarrow> rat option" where
  "num_val (RInt i) = Some (of_int i)"
| "num_val (RBool b) = Some (if b then 1 else 0)"
| "num_val (RFloat x) = Some x"
| "num_val _ = None"

fun raw_eq :: "raw \<Rightarrow> raw \<Rightarrow> bool" where
  "raw_eq (RDict xs) (RDict ys) =
     (length xs = length ys \<and>
      list_all (\<lambda>(k, v). case map_of ys k of None \<Rightarrow> False | Some w \<Rightarrow> raw_eq v w) xs)"
| "raw_eq (RList xs) (RList ys) = list_all2 raw_eq xs ys"
| "raw_eq (RStr s) (RStr t) = (s = t)"
| "raw_eq RNone RNone = True"
| "raw_eq a b = (num_val a \<noteq> None \<and> num_val a = num_val b)"

definition py_eq :: "cval \<Rightarrow> cval \<Rightarrow> bool" where
  "py_eq a b = raw_eq (plain a) (plain b)"

section \<open>Diff and merge\<close>

text \<open>The loop of \<^verbatim>\<open>Config.diff\<close>: \<^verbatim>\<open>except KeyError\<close> skips the key, any other exception of
  the two lookups leaves the method.\<close>

fun diff_loop ::
  "cval \<Rightarrow> cval \<Rightarrow> string list \<Rightarrow> (string \<times> cval \<times> cval) list \<Rightarrow>
   error + (string \<times> cval \<times> cval) list" where
  "diff_loop self updated_config [] ds = Inr ds"
| "diff_loop self updated_config (k # ks) ds =
     (case getitem updated_config k of
        Inl (KeyError a) \<Rightarrow> diff_loop self updated_config ks ds
      | Inl e \<Rightarrow> Inl e
      | Inr new_value \<Rightarrow>
          (case getitem self k of
             Inl (KeyError a) \<Rightarrow> diff_loop self updated_config ks ds
           | Inl e \<Rightarrow> Inl e
           | Inr old_value \<Rightarrow>
               if \<not> py_eq new_value old_value
               then diff_loop self updated_config ks (ds @ [(k, old_value, new_value)])
               else diff_loop self updated_config ks ds))"

definition diff :: "cval \<Rightarrow> cval \<Rightarrow> error + (string \<times> cval \<times> cval) list" where
  "diff self updated_config = diff_loop self updated_config (keys self) []"

text \<open>
  An entry given to \<^verbatim>\<open>Config.apply_diff\<close>: a pair, a triple, or a sequence of another
  length, for which \<^verbatim>\<open>key\<close> stays \<^verbatim>\<open>None\<close>. The values are what \<^verbatim>\<open>ConfigValue.get\<close> will see.
\<close>

datatype diff_item = Item2 string raw | Item3 string raw raw | ItemOther

fun item_key_new :: "diff_item \<Rightarrow> (string \<times> raw) option" where
  "item_key_new (Item2 key new) = Some (key, new)"
| "item_key_new (Item3 key old new) = Some (key, new)"
| "item_key_new ItemOther = None"

text \<open>\<^verbatim>\<open>if key:\<close> passes over \<^verbatim>\<open>None\<close> and over the empty string.\<close>

fun apply_diff :: "cval \<Rightarrow> diff_item list \<Rightarrow> cval \<times> error option" where
  "apply_diff self [] = (self, None)"
| "apply_diff self (item # rest) =
     (case item_key_new item of
        None \<Rightarrow> apply_diff self rest
      | Some (key, new) \<Rightarrow>
          if key \<noteq> [] then
            (case setitem self key new of
               (self', None) \<Rightarrow> apply_diff self' rest
             | (self', Some e) \<Rightarrow> (self', Some e))
          else apply_diff self rest)"

text \<open>The triples \<^verbatim>\<open>diff\<close> returns, as \<^verbatim>\<open>apply_diff\<close> receives them.\<close>

definition diff_items :: "(string \<times> cval \<times> cval) list \<Rightarrow> diff_item list" where
  "diff_items ds = map (\<lambda>(k, old_value, new_value). Item3 k (plain old_value) (plain new_value)) ds"


section \<open>The client\<close>

text \<open>
  What \<^verbatim>\<open>__get_manager_endpoint\<close> reads from outside: the environment variable
  \<^verbatim>\<open>SS_CONFIG_MANAGER_ENDPOINT\<close> and the file \<^verbatim>\<open>/tmp/ss_config_manager_endpoint\<close> as they
  stand at each pass of the loop (\<^verbatim>\<open>None\<close> for an unset variable, and for a file whose
  opening or reading raises), and the successive results of \<^verbatim>\<open>time.time()\<close>, doubles taken
  by their values.
\<close>

record world =
  environ :: "nat \<Rightarrow> string option"
  fallback_file :: "nat \<Rightarrow> string option"
  clock :: "nat \<Rightarrow> rat"

text \<open>
  The \<^verbatim>\<open>while\<close> loop, with the passes left as fuel: \<open>None\<close> when they run out before the
  loop ends. \<open>n\<close> counts the passes made (each ends with \<^verbatim>\<open>time.sleep(1)\<close>), \<open>t\<close> the calls
  of \<^verbatim>\<open>time.time()\<close>, \<open>reads\<close> the attempts to read the file. The result is the endpoint the
  loop ends with, the file reads and the passes.
  The deadline \<^verbatim>\<open>timestamp + timeout\<close> is a sum of doubles, which the machine rounds: it is
  the parameter \<open>float_add\<close>, not the sum of the two values. The comparison of two doubles
  is exact.
\<close>

fun locate_loop ::
  "(rat \<Rightarrow> rat \<Rightarrow> rat) \<Rightarrow> nat \<Rightarrow> world \<Rightarrow> rat option \<Rightarrow> rat \<Rightarrow> nat \<Rightarrow> nat \<Rightarrow>
   string option \<Rightarrow> nat \<Rightarrow> (string option \<times> nat \<times> nat) option" where
  "locate_loop float_add 0 w timeout timestamp n t endpoint reads =
     (if endpoint = None \<and>
         (case timeout of None \<Rightarrow> True | Some tm \<Rightarrow> clock w t < float_add timestamp tm)
      then None
      else Some (endpoint, reads, n))"
| "locate_loop float_add (Suc fuel) w timeout timestamp n t endpoint reads =
     (if endpoint = None \<and>
         (case timeout of None \<Rightarrow> True | Some tm \<Rightarrow> clock w t < float_add timestamp tm)
      then
        (case environ w n of
           None \<Rightarrow>
             locate_loop float_add fuel w timeout timestamp (Suc n)
               (case timeout of None \<Rightarrow> t | Some tm \<Rightarrow> Suc t) (fallback_file w n) (Suc reads)
         | Some ep \<Rightarrow>
             locate_loop float_add fuel w timeout timestamp (Suc n)
               (case timeout of None \<Rightarrow> t | Some tm \<Rightarrow> Suc t) (Some ep) reads)
      else Some (endpoint, reads, n))"

record locate_result =
  outcome :: "error + string"
  endpoint_after :: "string option"
  file_reads :: nat
  sleeps :: nat

text \<open>\<^verbatim>\<open>__get_manager_endpoint\<close>: \<open>cache\<close> is \<^verbatim>\<open>self.endpoint\<close>, which \<^verbatim>\<open>if self.endpoint\<close> takes
  for set when it is neither \<^verbatim>\<open>None\<close> nor empty.\<close>

definition get_manager_endpoint ::
  "(rat \<Rightarrow> rat \<Rightarrow> rat) \<Rightarrow> nat \<Rightarrow> world \<Rightarrow> string option \<Rightarrow> rat option \<Rightarrow>
   locate_result option" where
  "get_manager_endpoint float_add fuel w cache timeout =
     (if cache \<noteq> None \<and> cache \<noteq> Some []
      then Some \<lparr>outcome = Inr (the cache), endpoint_after = cache, file_reads = 0, sleeps = 0\<rparr>
      else
        (case locate_loop float_add fuel w timeout (clock w 0) 0 1 None 0 of
           None \<Rightarrow> None
         | Some (None, reads, n) \<Rightarrow>
             Some \<lparr>outcome = Inl TimeoutError, endpoint_after = cache,
                   file_reads = reads, sleeps = n\<rparr>
         | Some (Some endpoint, reads, n) \<Rightarrow>
             Some \<lparr>outcome = Inr endpoint, endpoint_after = Some endpoint,
                   file_reads = reads, sleeps = n\<rparr>))"

text \<open>
  \<^verbatim>\<open>get_config\<close>. The socket is outside the module: \<open>poll_result\<close> is what \<^verbatim>\<open>sock.poll\<close>
  returns and \<open>msg\<close> the frames of \<^verbatim>\<open>sock.recv_multipart()\<close>. Two names the method uses do
  not exist: \<^verbatim>\<open>logging.Logger\<close> has no attribute \<^verbatim>\<open>debuf\<close>, and the module binds no name
  \<^verbatim>\<open>config\<close>; evaluating either raises.
\<close>

definition logger_debuf :: "string \<Rightarrow> error + unit" where
  "logger_debuf line = Inl AttributeError"

definition config_Config_deserialise :: "(string \<Rightarrow> error + raw) \<Rightarrow> string \<Rightarrow> error + cval" where
  "config_Config_deserialise loads raw_string = Inl NameError"

text \<open>\<^verbatim>\<open>msg[-2]\<close> and \<^verbatim>\<open>msg[-1]\<close> raise \<^verbatim>\<open>IndexError\<close> on a list that is too short.\<close>

definition frame_from_end :: "string list \<Rightarrow> nat \<Rightarrow> error + string" where
  "frame_from_end msg i = (if i < length msg then Inr (rev msg ! i) else Inl IndexError)"

definition get_config ::
  "(rat \<Rightarrow> rat \<Rightarrow> rat) \<Rightarrow> nat \<Rightarrow> world \<Rightarrow> string option \<Rightarrow> (string \<Rightarrow> error + raw) \<Rightarrow>
   string \<Rightarrow> rat option \<Rightarrow> nat \<Rightarrow> string list \<Rightarrow> ((error + cval) \<times> string option) option" where
  "get_config float_add fuel w cache loads path timeout poll_result msg =
     (case get_manager_endpoint float_add fuel w cache timeout of
        None \<Rightarrow> None
      | Some r \<Rightarrow>
          (case outcome r of
             Inl e \<Rightarrow> Some (Inl e, endpoint_after r)
           | Inr ep \<Rightarrow>
               (case logger_debuf ''Requested config at {path}'' of
                  Inl e \<Rightarrow> Some (Inl e, endpoint_after r)
                | Inr u \<Rightarrow>
                    if poll_result = 0 then Some (Inl TimeoutError, None)
                    else
                      (case frame_from_end msg 1 of
                         Inl e \<Rightarrow> Some (Inl e, endpoint_after r)
                       | Inr status \<Rightarrow>
                           if status = ''0''
                           then
                             (case frame_from_end msg 0 of
                                Inl e \<Rightarrow> Some (Inl e, endpoint_after r)
                              | Inr payload \<Rightarrow>
                                  Some (config_Config_deserialise loads payload, endpoint_after r))
                           else
                             (case frame_from_end msg 0 of
                                Inl e \<Rightarrow> Some (Inl e, endpoint_after r)
                              | Inr error_msg \<Rightarrow>
                                  Some (Inl (Exception error_msg), endpoint_after r))))))"

section \<open>Notions the properties are stated with\<close>

text \<open>A path segment: not empty, and without a slash.\<close>

definition segment :: "string \<Rightarrow> bool" where
  "segment s = (s \<noteq> [] \<and> CHR ''/'' \<notin> set s)"


text \<open>The lookup of \<open>p\<close> in \<open>t\<close> gives a value that is no \<open>Config\<close>.\<close>

definition leaf_at :: "cval \<Rightarrow> string \<Rightarrow> bool" where
  "leaf_at t p = (case getitem t p of Inl e \<Rightarrow> False | Inr x \<Rightarrow> \<not> is_Config x)"

text \<open>
  A tree as the assignments leave it: within a node no key occurs twice (it is a
  \<^verbatim>\<open>dict\<close>), and no key holds a slash (an assignment splits its path at the slashes).
\<close>

fun wf_tree :: "cval \<Rightarrow> bool" where
  "wf_tree (Config pp es) =
     (distinct (map fst es) \<and> list_all (\<lambda>(k, v). CHR ''/'' \<notin> set k \<and> wf_tree v) es)"
| "wf_tree _ = True"

text \<open>
  Python's \<^verbatim>\<open>json\<close> on the one value and the texts that the examples of the round trip
  pass to it: \<^verbatim>\<open>json.dumps\<close> of the mapping of \<^verbatim>\<open>k\<close> to \<^verbatim>\<open>1\<close> is \<open>sample_text\<close>,
  \<^verbatim>\<open>json.loads\<close> gives the mapping back from that text, and it raises \<^verbatim>\<open>JSONDecodeError\<close> on
  a text that starts with \<^verbatim>\<open>b:\<close>. They stand for \<^verbatim>\<open>json\<close> on these inputs only.
\<close>

definition sample_text :: string where
  "sample_text = ''{'' @ [CHR 0x22] @ ''k'' @ [CHR 0x22] @ '': 1}''"

definition sample_dumps :: "raw \<Rightarrow> error + string" where
  "sample_dumps r = (if r = RDict [(''k'', RInt 1)] then Inr sample_text else Inl TypeError)"

definition sample_loads :: "string \<Rightarrow> error + raw" where
  "sample_loads s = (if s = sample_text then Inr (RDict [(''k'', RInt 1)]) else Inl JSONDecodeError)"

text \<open>A tree all of whose keys are path segments, and distinct within each node: what
  assignments at paths of non-empty segments build.\<close>

fun proper_tree :: "cval \<Rightarrow> bool" where
  "proper_tree (Config pp es) =
     (distinct (map fst es) \<and> list_all (\<lambda>(k, v). segment k \<and> proper_tree v) es)"
| "proper_tree _ = True"

text \<open>The leaf paths of a tree as lists of segments: \<open>keys\<close> before the segments are joined.\<close>

fun leaf_paths :: "cval \<Rightarrow> string list list" where
  "leaf_paths (Config pp es) =
     concat (map (\<lambda>(k, v). if is_Config v then map ((#) k) (leaf_paths v) else [[k]]) es)"
| "leaf_paths _ = []"

section \<open>Splitting and joining paths\<close>

lemma split1_no_slash: "CHR ''/'' \<notin> set k \<Longrightarrow> split1 k = (k, None)"
  by (induction k) (auto simp: split1_def split_once_def)

lemma split1_slash: "CHR ''/'' \<notin> set k \<Longrightarrow> split1 (k @ CHR ''/'' # rest) = (k, Some rest)"
  by (induction k) (auto simp: split1_def split_once_def)

lemma split1_key_no_slash: "split1 s = (key, t) \<Longrightarrow> CHR ''/'' \<notin> set key"
  by (auto simp: split1_def split_once_def dest: set_takeWhileD)



lemma join_slash_Cons: "segs \<noteq> [] \<Longrightarrow> join_slash (s # segs) = s @ CHR ''/'' # join_slash segs"
  by (cases segs) auto

lemma join_slash_nonempty: "segs \<noteq> [] \<Longrightarrow> list_all segment segs \<Longrightarrow> join_slash segs \<noteq> []"
  by (cases segs rule: join_slash.cases) (auto simp: segment_def)

section \<open>Assignment\<close>

lemma setitem_leaf: "\<not> is_Config leaf \<Longrightarrow> setitem leaf k v = (leaf, Some TypeError)"
  by (cases leaf) auto

lemma getitem_leaf: "\<not> is_Config leaf \<Longrightarrow> getitem leaf k = Inl TypeError"
  by (cases leaf) auto

lemma setitem_Config: "\<exists>es' err. setitem (Config pp es) k v = (Config pp es', err)"
proof (induction k arbitrary: pp es rule: length_induct)
  case (1 k)
  show ?case
  proof (cases "split1 k")
    case (Pair key t)
    show ?thesis
    proof (cases t)
      case None
      with Pair show ?thesis by (auto split: sum.splits)
    next
      case (Some key_tail)
      have len: "length key_tail < length k"
        using Pair Some by (simp add: split1_tail_shorter)
      show ?thesis
      proof (cases "key = [] \<and> key_tail \<noteq> []")
        case True
        with Pair Some 1 len show ?thesis by simp
      next
        case False
        show ?thesis
        proof (cases "key_tail = []")
          case True
          with Pair Some False show ?thesis by (auto split: sum.splits)
        next
          case nonempty: False
          show ?thesis
          proof (cases "map_of es key")
            case None
            obtain es' err where "setitem (Config None []) key_tail v = (Config None es', err)"
              using 1 len by blast
            with Pair Some False nonempty None show ?thesis by simp
          next
            case (Some c)
            obtain c' err where "setitem c key_tail v = (c', err)" by (cases "setitem c key_tail v")
            with Pair \<open>t = Some key_tail\<close> False nonempty Some show ?thesis by simp
          qed
        qed
      qed
    qed
  qed
qed

lemma getitem_empty: "\<exists>k. getitem (Config pp []) p = Inl (KeyError k)"
proof (induction p rule: length_induct)
  case (1 p)
  show ?case
  proof (cases "split1 p")
    case (Pair key t)
    show ?thesis
    proof (cases t)
      case None
      with Pair show ?thesis by simp
    next
      case (Some key_tail)
      have "length key_tail < length p"
        using Pair Some by (simp add: split1_tail_shorter)
      with 1 obtain k where "getitem (Config pp []) key_tail = Inl (KeyError k)" by blast
      with Pair Some show ?thesis by simp
    qed
  qed
qed

lemma getitem_single:
  "segment s \<Longrightarrow> getitem (Config pp es) s = (case map_of es s of None \<Rightarrow> Inl (KeyError s) | Some val \<Rightarrow> Inr val)"
  by (simp add: segment_def split1_no_slash)

lemma getitem_descend:
  "segment s \<Longrightarrow> p \<noteq> [] \<Longrightarrow>
   getitem (Config pp es) (s @ CHR ''/'' # p) =
     (case map_of es s of None \<Rightarrow> Inl (KeyError s) | Some val \<Rightarrow> getitem val p)"
  by (simp add: segment_def split1_slash split: option.splits)

lemma setitem_single:
  "segment s \<Longrightarrow>
   setitem (Config pp es) s v =
     (case ConfigValue_get v (Some (child_path pp s)) of
        Inl e \<Rightarrow> (Config pp es, Some e)
      | Inr val \<Rightarrow> (Config pp (AList.update s val es), None))"
  by (simp add: segment_def split1_no_slash)

lemma setitem_descend:
  "segment s \<Longrightarrow> p \<noteq> [] \<Longrightarrow>
   setitem (Config pp es) (s @ CHR ''/'' # p) v =
     (case setitem (case map_of es s of None \<Rightarrow> Config None [] | Some c \<Rightarrow> c) p v of
        (child, err) \<Rightarrow> (Config pp (AList.update s child es), err))"
  by (simp add: segment_def split1_slash split: option.splits)

lemma map_of_update_same: "map_of (AList.update k v al) k = Some v"
  by (simp add: update_conv')

section \<open>Trees stay well formed\<close>

lemma update_fresh: "k \<notin> fst ` set al \<Longrightarrow> AList.update k v al = al @ [(k, v)]"
  by (induction al) auto

lemma wf_tree_update:
  assumes "wf_tree (Config pp es)" and "CHR ''/'' \<notin> set k" and "wf_tree v"
  shows "wf_tree (Config pp (AList.update k v es))"
proof -
  have "list_all (\<lambda>(k, v). CHR ''/'' \<notin> set k \<and> wf_tree v) (AList.update k v es)"
    using assms by (induction es) auto
  with assms(1) show ?thesis by (simp add: distinct_update)
qed

lemma wf_tree_child: "wf_tree (Config pp es) \<Longrightarrow> map_of es k = Some c \<Longrightarrow> wf_tree c"
  by (auto simp: list_all_iff dest: map_of_SomeD)

lemma wf_tree_built:
  "(wf_tree self \<longrightarrow> wf_tree (fst (setitem self raw_key v)))"
  "(\<forall>x. ConfigValue_get v' pp = Inr x \<longrightarrow> wf_tree x)"
  "(wf_tree self' \<longrightarrow> (\<forall>x. Config_fill self' kvs = Inr x \<longrightarrow> wf_tree x))"
proof (induction self raw_key v and v' pp and self' kvs rule: setitem_ConfigValue_get_Config_fill.induct)
  case (1 pp es raw_key v)
  show ?case
  proof
    assume wf: "wf_tree (Config pp es)"
    obtain key t where sp: "split1 raw_key = (key, t)" by (cases "split1 raw_key")
    have key: "CHR ''/'' \<notin> set key" using sp by (rule split1_key_no_slash)
    have store: "wf_tree (fst (case ConfigValue_get v (Some (child_path pp key)) of
               Inl e \<Rightarrow> (Config pp es, Some e)
             | Inr val \<Rightarrow> (Config pp (AList.update key val es), None)))"
      if "\<forall>x. ConfigValue_get v (Some (child_path pp key)) = Inr x \<longrightarrow> wf_tree x"
      using that wf key by (auto split: sum.splits intro: wf_tree_update simp del: wf_tree.simps)
    show "wf_tree (fst (setitem (Config pp es) raw_key v))"
    proof (cases t)
      case None
      with sp store 1(1) [OF sp [symmetric]] show ?thesis by simp
    next
      case (Some key_tail)
      show ?thesis
      proof (cases "key = [] \<and> key_tail \<noteq> []")
        case True
        with sp Some 1(2) [OF sp [symmetric]] wf show ?thesis by simp
      next
        case skip: False
        show ?thesis
        proof (cases "key_tail = []")
          case True
          with sp Some skip store 1(3) [OF sp [symmetric]] show ?thesis by simp
        next
          case tail: False
          show ?thesis
          proof (cases "map_of es key")
            case None
            have "wf_tree (fst (setitem (Config None []) key_tail v))"
              using 1(4) [OF sp [symmetric]] sp Some skip tail None by simp
            then have "wf_tree (Config pp (AList.update key (fst (setitem (Config None []) key_tail v)) es))"
              using wf key by (intro wf_tree_update)
            with sp Some skip tail None show ?thesis
              by (simp add: case_prod_unfold del: wf_tree.simps)
          next
            case (Some c)
            have "wf_tree c" using wf Some by (rule wf_tree_child)
            then have "wf_tree (fst (setitem c key_tail v))"
              using 1(5) [OF sp [symmetric]] sp \<open>t = Some key_tail\<close> skip tail Some by simp
            then have "wf_tree (Config pp (AList.update key (fst (setitem c key_tail v)) es))"
              using wf key by (intro wf_tree_update)
            with sp \<open>t = Some key_tail\<close> skip tail Some show ?thesis
              by (simp add: case_prod_unfold del: wf_tree.simps)
          qed
        qed
      qed
    qed
  qed
next
  case (15 self key val contents)
  show ?case
  proof (intro impI allI)
    fix x
    assume wf: "wf_tree self" and fill: "Config_fill self ((key, val) # contents) = Inr x"
    obtain self1 err where s: "setitem self key val = (self1, err)" by (cases "setitem self key val")
    with fill have err: "err = None" and f: "Config_fill self1 contents = Inr x"
      by (auto split: option.splits)
    from 15(1) wf s have "wf_tree self1" by simp
    with 15(2) [OF s [symmetric]] s err f show "wf_tree x" by simp
  qed
qed auto

section \<open>Wrapping a value again\<close>

lemma getitem_None:
  "split1 raw_key = (key, None) \<Longrightarrow>
   getitem (Config pp es) raw_key =
     (case map_of es key of None \<Rightarrow> Inl (KeyError key) | Some val \<Rightarrow> Inr val)"
  by simp

lemma getitem_skip:
  "split1 raw_key = ([], Some key_tail) \<Longrightarrow> key_tail \<noteq> [] \<Longrightarrow>
   getitem (Config pp es) raw_key = getitem (Config pp es) key_tail"
  by simp

lemma getitem_here:
  "split1 raw_key = (key, Some []) \<Longrightarrow>
   getitem (Config pp es) raw_key =
     (case map_of es key of None \<Rightarrow> Inl (KeyError key) | Some val \<Rightarrow> Inr val)"
  by (simp split: option.splits)

lemma getitem_down:
  "split1 raw_key = (key, Some key_tail) \<Longrightarrow> key \<noteq> [] \<Longrightarrow> key_tail \<noteq> [] \<Longrightarrow>
   getitem (Config pp es) raw_key =
     (case map_of es key of None \<Rightarrow> Inl (KeyError key) | Some val \<Rightarrow> getitem val key_tail)"
  by (simp split: option.splits)

lemma split_once_sep: "sep \<notin> set k \<Longrightarrow> split_once sep (k @ sep # rest) = (k, Some rest)"
proof -
  assume a: "sep \<notin> set k"
  then have "\<forall>c\<in>set k. c \<noteq> sep" by auto
  then have "takeWhile (\<lambda>c. c \<noteq> sep) (k @ sep # rest) = k"
    and "dropWhile (\<lambda>c. c \<noteq> sep) (k @ sep # rest) = sep # rest"
    by (simp_all add: takeWhile_append2 dropWhile_append2)
  then show ?thesis by (simp add: split_once_def)
qed

lemma plain_is_Config: "plain v' = plain v \<Longrightarrow> is_Config v' = is_Config v"
  by (cases v; cases v') auto

lemma plain_entries:
  "plain v' = plain (Config pp es) \<Longrightarrow>
   \<exists>pp' es'. v' = Config pp' es' \<and>
     map (\<lambda>(k, v). (k, plain v)) es' = map (\<lambda>(k, v). (k, plain v)) es"
  by (cases v') auto

lemma plain_map_of:
  "map (\<lambda>(k, v). (k, plain v)) es' = map (\<lambda>(k, v). (k, plain v)) es \<Longrightarrow>
   map_option plain (map_of es' k) = map_option plain (map_of es k)"
proof (induction es arbitrary: es')
  case Nil
  then show ?case by simp
next
  case (Cons e es)
  from Cons.prems obtain e' es1 where es': "es' = e' # es1" by (cases es') auto
  obtain a v where e: "e = (a, v)" by (cases e)
  obtain a' w where e': "e' = (a', w)" by (cases e')
  from Cons.prems es' e e' have hd: "a' = a" "plain w = plain v"
    and rest: "map (\<lambda>(k, v). (k, plain v)) es1 = map (\<lambda>(k, v). (k, plain v)) es"
    by simp_all
  have ih: "map_option plain (map_of es1 k) = map_option plain (map_of es k)"
    using rest by (rule Cons.IH)
  show ?case
  proof (cases "a = k")
    case True
    with es' e e' hd show ?thesis by simp
  next
    case False
    with es' e e' hd ih show ?thesis by simp
  qed
qed

lemma fill_rewrap:
  assumes "\<forall>(k, v) \<in> set es. CHR ''/'' \<notin> set k \<and>
             (\<forall>q. \<exists>v'. ConfigValue_get (plain v) q = Inr v' \<and> plain v' = plain v)"
    and "distinct (map fst es)" and "fst ` set es \<inter> fst ` set acc = {}"
  shows "\<exists>es'. Config_fill (Config q acc) (map (\<lambda>(k, v). (k, plain v)) es) = Inr (Config q (acc @ es')) \<and>
           map (\<lambda>(k, v). (k, plain v)) es' = map (\<lambda>(k, v). (k, plain v)) es"
  using assms
proof (induction es arbitrary: acc)
  case Nil
  then show ?case by simp
next
  case (Cons e es)
  obtain k v where e: "e = (k, v)" by (cases e)
  from Cons.prems(1) e have k: "CHR ''/'' \<notin> set k" by simp
  from Cons.prems(1) e obtain v' where
    v': "ConfigValue_get (plain v) (Some (child_path q k)) = Inr v'" "plain v' = plain v"
    by fastforce
  from Cons.prems(3) e have fresh: "k \<notin> fst ` set acc" by auto
  have set: "setitem (Config q acc) k (plain v) = (Config q (acc @ [(k, v')]), None)"
    using k v' fresh by (simp add: split1_no_slash update_fresh)
  have d: "fst ` set es \<inter> fst ` set (acc @ [(k, v')]) = {}"
    using Cons.prems(2,3) e by auto
  from Cons.IH [of "acc @ [(k, v')]"] Cons.prems(1,2) d obtain es' where
    es': "Config_fill (Config q (acc @ [(k, v')])) (map (\<lambda>(k, v). (k, plain v)) es) =
            Inr (Config q ((acc @ [(k, v')]) @ es'))"
         "map (\<lambda>(k, v). (k, plain v)) es' = map (\<lambda>(k, v). (k, plain v)) es"
    by auto
  have "Config_fill (Config q acc) (map (\<lambda>(k, v). (k, plain v)) (e # es)) =
      Inr (Config q (acc @ (k, v') # es'))"
    using e set es'(1) by (simp del: setitem.simps)
  moreover have "map (\<lambda>(k, v). (k, plain v)) ((k, v') # es') = map (\<lambda>(k, v). (k, plain v)) (e # es)"
    using e v'(2) es'(2) by simp
  ultimately show ?case by blast
qed

lemma rewrap:
  "wf_tree v \<Longrightarrow> \<exists>v'. ConfigValue_get (plain v) q = Inr v' \<and> plain v' = plain v"
proof (induction v arbitrary: q)
  case (Config pp es)
  have "\<forall>(k, v) \<in> set es. CHR ''/'' \<notin> set k \<and>
          (\<forall>q. \<exists>v'. ConfigValue_get (plain v) q = Inr v' \<and> plain v' = plain v)"
  proof (clarify, intro conjI allI)
    fix k v q
    assume kv: "(k, v) \<in> set es"
    with Config.prems show "CHR ''/'' \<notin> set k" by (auto simp: list_all_iff)
    from kv Config.prems have "wf_tree v" by (auto simp: list_all_iff)
    moreover from kv have "v \<in> Basic_BNFs.snds (k, v)" by simp
    ultimately show "\<exists>v'. ConfigValue_get (plain v) q = Inr v' \<and> plain v' = plain v"
      using Config.IH kv by blast
  qed
  moreover from Config.prems have "distinct (map fst es)" by simp
  ultimately obtain es' where
    "Config_fill (Config q []) (map (\<lambda>(k, v). (k, plain v)) es) = Inr (Config q ([] @ es'))"
    "map (\<lambda>(k, v). (k, plain v)) es' = map (\<lambda>(k, v). (k, plain v)) es"
    using fill_rewrap [of es "[]" q] by auto
  then show ?case by simp
qed auto

lemma plain_eq_getitem:
  "plain v' = plain v \<Longrightarrow> map_sum id plain (getitem v' k) = map_sum id plain (getitem v k)"
proof (induction v k arbitrary: v' rule: getitem.induct)
  case (1 pp es raw_key)
  from plain_entries [OF "1.prems"] obtain pp' es' where
    v': "v' = Config pp' es'"
    and m: "map (\<lambda>(k, v). (k, plain v)) es' = map (\<lambda>(k, v). (k, plain v)) es"
    by blast
  obtain key t where sp: "split1 raw_key = (key, t)" by (cases "split1 raw_key")
  have look: "map_option plain (map_of es' key) = map_option plain (map_of es key)"
    using m by (rule plain_map_of)
  have direct: "map_sum id plain (case map_of es' key of None \<Rightarrow> Inl (KeyError key) | Some val \<Rightarrow> Inr val) =
      map_sum id plain (case map_of es key of None \<Rightarrow> Inl (KeyError key) | Some val \<Rightarrow> Inr val)"
    using look by (cases "map_of es key"; cases "map_of es' key") auto
  show ?case
  proof (cases t)
    case None
    with sp have "split1 raw_key = (key, None)" by simp
    then show ?thesis unfolding v' using direct by (simp only: getitem_None)
  next
    case (Some key_tail)
    with sp have sp': "split1 raw_key = (key, Some key_tail)" by simp
    show ?thesis
    proof (cases "key_tail = []")
      case True
      with sp' have "split1 raw_key = (key, Some [])" by simp
      then show ?thesis unfolding v' using direct by (simp only: getitem_here)
    next
      case tail: False
      show ?thesis
      proof (cases "key = []")
        case True
        with sp' have sk: "split1 raw_key = ([], Some key_tail)" by simp
        from True tail have c: "key = [] \<and> key_tail \<noteq> []" by simp
        have "map_sum id plain (getitem v' key_tail) = map_sum id plain (getitem (Config pp es) key_tail)"
          using 1(1) [OF sp [symmetric] Some c "1.prems"] .
        then show ?thesis unfolding v' by (simp only: getitem_skip [OF sk tail])
      next
        case key: False
        then have c: "\<not> (key = [] \<and> key_tail \<noteq> [])" by simp
        show ?thesis
        proof (cases "map_of es key")
          case None
          with look have "map_of es' key = None" by simp
          with None show ?thesis unfolding v'
            by (simp only: getitem_down [OF sp' key tail] option.case)
        next
          case (Some val)
          with look obtain val' where val': "map_of es' key = Some val'" "plain val' = plain val"
            by (cases "map_of es' key") auto
          have "map_sum id plain (getitem val' key_tail) = map_sum id plain (getitem val key_tail)"
            using 1(2) [OF sp [symmetric] \<open>t = Some key_tail\<close> c Some tail val'(2)] .
          with Some val'(1) show ?thesis unfolding v'
            by (simp only: getitem_down [OF sp' key tail] option.case)
        qed
      qed
    qed
  qed
next
  case (2 s pp raw_key)
  then show ?case by (cases v') simp_all
next
  case (3 i pp raw_key)
  then show ?case by (cases v') simp_all
next
  case (4 x pp raw_key)
  then show ?case by (cases v') simp_all
next
  case (5 xs pp raw_key)
  then show ?case by (cases v') simp_all
next
  case (6 raw_key)
  then show ?case by (cases v') simp_all
qed

lemma keys_entries_cong:
  assumes "map (\<lambda>(k, v). (k, plain v)) es' = map (\<lambda>(k, v). (k, plain v)) es"
    and "\<And>k v w. (k, v) \<in> set es \<Longrightarrow> plain w = plain v \<Longrightarrow> keys w = keys v"
  shows "map (\<lambda>(k, v). if is_Config v then map (\<lambda>sub. k @ ''/'' @ sub) (keys v) else [k]) es' =
         map (\<lambda>(k, v). if is_Config v then map (\<lambda>sub. k @ ''/'' @ sub) (keys v) else [k]) es"
  using assms
proof (induction es arbitrary: es')
  case Nil
  then show ?case by simp
next
  case (Cons e es)
  from Cons.prems(1) obtain e' es1 where es': "es' = e' # es1" by (cases es') auto
  obtain k v where e: "e = (k, v)" by (cases e)
  obtain k' w where e': "e' = (k', w)" by (cases e')
  from Cons.prems(1) es' e e' have kk: "k' = k" "plain w = plain v"
    and rest: "map (\<lambda>(k, v). (k, plain v)) es1 = map (\<lambda>(k, v). (k, plain v)) es"
    by auto
  have "keys w = keys v"
    using Cons.prems(2) [of k v w] e kk(2) by simp
  moreover have "is_Config w = is_Config v" using kk(2) by (rule plain_is_Config)
  moreover have "map (\<lambda>(k, v). if is_Config v then map (\<lambda>sub. k @ ''/'' @ sub) (keys v) else [k]) es1 =
      map (\<lambda>(k, v). if is_Config v then map (\<lambda>sub. k @ ''/'' @ sub) (keys v) else [k]) es"
  proof (rule Cons.IH [OF rest])
    fix k v w
    assume "(k, v) \<in> set es" and "plain w = plain v"
    then show "keys w = keys v" using Cons.prems(2) [of k v w] by simp
  qed
  ultimately show ?case using es' e e' kk(1) by simp
qed

lemma plain_eq_keys: "plain v' = plain v \<Longrightarrow> keys v' = keys v"
proof (induction v arbitrary: v')
  case (Config pp es)
  from plain_entries [OF Config.prems] obtain pp' es' where
    v': "v' = Config pp' es'"
    and m: "map (\<lambda>(k, v). (k, plain v)) es' = map (\<lambda>(k, v). (k, plain v)) es"
    by blast
  have "\<And>k v w. (k, v) \<in> set es \<Longrightarrow> plain w = plain v \<Longrightarrow> keys w = keys v"
  proof -
    fix k v w
    assume "(k, v) \<in> set es" and "plain w = plain v"
    moreover have "v \<in> Basic_BNFs.snds (k, v)" by simp
    ultimately show "keys w = keys v" using Config.IH by blast
  qed
  with m have "map (\<lambda>(k, v). if is_Config v then map (\<lambda>sub. k @ ''/'' @ sub) (keys v) else [k]) es' =
        map (\<lambda>(k, v). if is_Config v then map (\<lambda>sub. k @ ''/'' @ sub) (keys v) else [k]) es"
    by (rule keys_entries_cong)
  with v' show ?case by simp
next
  case (ConfigString s pp)
  then show ?case by (cases v') simp_all
next
  case (ConfigInt i pp)
  then show ?case by (cases v') simp_all
next
  case (ConfigFloat x pp)
  then show ?case by (cases v') simp_all
next
  case (ConfigList xs pp)
  then show ?case by (cases v') simp_all
next
  case PyNone
  then show ?case by (cases v') simp_all
qed

section \<open>What an assignment leaves alone\<close>

lemma map_of_update_other: "k' \<noteq> k \<Longrightarrow> map_of (AList.update k v al) k' = map_of al k'"
  by (simp add: update_conv')

lemma getitem_path_Cons:
  assumes "segment s" and "q \<noteq> []" and "list_all segment q"
  shows "getitem (Config pp es) (join_slash (s # q)) =
           (case map_of es s of None \<Rightarrow> Inl (KeyError s) | Some val \<Rightarrow> getitem val (join_slash q))"
proof -
  have "join_slash q \<noteq> []" using assms(2,3) by (rule join_slash_nonempty)
  with assms(1,2) show ?thesis
    by (simp add: join_slash_Cons getitem_descend del: getitem.simps)
qed

lemma setitem_path_Cons:
  assumes "segment s" and "p \<noteq> []" and "list_all segment p"
  shows "setitem (Config pp es) (join_slash (s # p)) v =
     (case setitem (case map_of es s of None \<Rightarrow> Config None [] | Some c \<Rightarrow> c) (join_slash p) v of
        (child, err) \<Rightarrow> (Config pp (AList.update s child es), err))"
proof -
  have "join_slash p \<noteq> []" using assms(2,3) by (rule join_slash_nonempty)
  with assms(1,2) show ?thesis
    by (simp add: join_slash_Cons setitem_descend del: setitem.simps)
qed

text \<open>A lookup that succeeds is not disturbed by an assignment at an incomparable path.\<close>

lemma setitem_frame:
  assumes "p \<noteq> []" and "list_all segment p" and "q \<noteq> []" and "list_all segment q"
    and "\<not> prefix p q" and "\<not> prefix q p"
    and "getitem t (join_slash q) = Inr x"
  shows "getitem (fst (setitem t (join_slash p) v)) (join_slash q) = Inr x"
  using assms
proof (induction p arbitrary: q t)
  case Nil
  then show ?case by simp
next
  case (Cons s p)
  from Cons.prems(7) obtain pp es where t: "t = Config pp es"
    by (cases t) auto
  obtain s2 q2 where q: "q = s2 # q2" using Cons.prems(3) by (cases q) auto
  have s: "segment s" and s2: "segment s2" and q2: "list_all segment q2" and p: "list_all segment p"
    using Cons.prems(2,4) q by simp_all
  obtain es' err where set: "setitem t (join_slash (s # p)) v = (Config pp es', err)"
    unfolding t using setitem_Config by blast
  have look: "getitem (Config pp es') (join_slash q) = Inr x"
  proof (cases "s2 = s")
    case False
    have other: "map_of es' s2 = map_of es s2"
    proof (cases "p = []")
      case True
      with set s t show ?thesis
        by (auto simp: setitem_single map_of_update_other [OF False] simp del: setitem.simps
            split: sum.splits)
    next
      case False
      with set s p t \<open>s2 \<noteq> s\<close> show ?thesis
        by (auto simp: setitem_path_Cons map_of_update_other simp del: setitem.simps
            split: prod.splits)
    qed
    show ?thesis
    proof (cases "q2 = []")
      case True
      with Cons.prems(7) q t s2 other show ?thesis
        by (simp add: getitem_single del: getitem.simps)
    next
      case False
      with Cons.prems(7) q t s2 q2 other show ?thesis
        by (simp add: getitem_path_Cons del: getitem.simps)
    qed
  next
    case True
    have q2ne: "q2 \<noteq> []" using Cons.prems(6) q True by auto
    have pne: "p \<noteq> []" using Cons.prems(5) q True by auto
    from Cons.prems(7) q True t s q2 q2ne obtain c where
      c: "map_of es s = Some c" and g: "getitem c (join_slash q2) = Inr x"
      by (auto simp: getitem_path_Cons simp del: getitem.simps split: option.splits)
    have inc: "\<not> prefix p q2" "\<not> prefix q2 p"
      using Cons.prems(5,6) q True by simp_all
    have ih: "getitem (fst (setitem c (join_slash p) v)) (join_slash q2) = Inr x"
      using Cons.IH [OF pne p q2ne q2 inc g] .
    have "es' = AList.update s (fst (setitem c (join_slash p) v)) es"
      using set t s p pne c by (simp add: setitem_path_Cons del: setitem.simps split: prod.splits)
    with ih q True s q2 q2ne show ?thesis
      by (simp add: getitem_path_Cons map_of_update_same del: getitem.simps)
  qed
  with set show ?case by simp
qed


lemma getitem_same_head:
  assumes "segment s" and "list_all segment q" and "map_of es' s = map_of es s"
  shows "getitem (Config pp' es') (join_slash (s # q)) = getitem (Config pp es) (join_slash (s # q))"
proof (cases "q = []")
  case True
  with assms show ?thesis by (simp add: getitem_single del: getitem.simps)
next
  case False
  with assms show ?thesis by (simp add: getitem_path_Cons del: getitem.simps)
qed

lemma setitem_ok_Config: "setitem t k v = (t', None) \<Longrightarrow> is_Config t \<and> is_Config t'"
proof (cases t)
  case (Config pp es)
  assume "setitem t k v = (t', None)"
  with Config setitem_Config [of pp es k v] show ?thesis by auto
qed auto

text \<open>An assignment that succeeds puts no leaf where the path asked for does not start
  with the path assigned.\<close>

lemma setitem_leaf_frame:
  assumes "p \<noteq> []" and "list_all segment p" and "q \<noteq> []" and "list_all segment q"
    and "\<not> prefix p q"
    and "setitem t (join_slash p) v = (t', None)"
    and "leaf_at t' (join_slash q)"
  shows "leaf_at t (join_slash q)"
  using assms
proof (induction p arbitrary: q t t')
  case Nil
  then show ?case by simp
next
  case (Cons s p)
  from setitem_ok_Config [OF Cons.prems(6)] obtain pp es where t: "t = Config pp es"
    by (cases t) auto
  obtain s2 q2 where q: "q = s2 # q2" using Cons.prems(3) by (cases q) auto
  have s: "segment s" and s2: "segment s2" and q2: "list_all segment q2" and p: "list_all segment p"
    using Cons.prems(2,4) q by simp_all
  obtain es' where t': "t' = Config pp es'"
    using Cons.prems(6) setitem_Config [of pp es "join_slash (s # p)" v] unfolding t by auto
  show ?case
  proof (cases "s2 = s")
    case False
    have other: "map_of es' s2 = map_of es s2"
    proof (cases "p = []")
      case True
      with Cons.prems(6) s t t' show ?thesis
        by (auto simp: setitem_single map_of_update_other [OF False] simp del: setitem.simps
            split: sum.splits)
    next
      case False
      with Cons.prems(6) s p t t' \<open>s2 \<noteq> s\<close> show ?thesis
        by (auto simp: setitem_path_Cons map_of_update_other simp del: setitem.simps
            split: prod.splits)
    qed
    have "getitem t' (join_slash q) = getitem t (join_slash q)"
      unfolding t t' q using s2 q2 other by (rule getitem_same_head)
    with Cons.prems(7) show ?thesis by (simp add: leaf_at_def)
  next
    case True
    have pne: "p \<noteq> []" using Cons.prems(5) q True by auto
    define child where "child = (case map_of es s of None \<Rightarrow> Config None [] | Some c \<Rightarrow> c)"
    obtain child' err where sc: "setitem child (join_slash p) v = (child', err)"
      by (cases "setitem child (join_slash p) v")
    from Cons.prems(6) have "err = None" and es': "es' = AList.update s child' es"
      unfolding t t' using s p pne sc
      by (simp_all add: setitem_path_Cons child_def [symmetric] del: setitem.simps)
    with sc have sc: "setitem child (join_slash p) v = (child', None)" by simp
    from setitem_ok_Config [OF sc] have cfg: "is_Config child'" by simp
    show ?thesis
    proof (cases "q2 = []")
      case True
      with Cons.prems(7) q \<open>s2 = s\<close> t' es' s cfg show ?thesis
        by (simp add: leaf_at_def getitem_single map_of_update_same del: getitem.simps)
    next
      case False
      have "getitem t' (join_slash q) = getitem child' (join_slash q2)"
        unfolding t' q True es' using s q2 False
        by (simp add: getitem_path_Cons map_of_update_same del: getitem.simps)
      with Cons.prems(7) have l: "leaf_at child' (join_slash q2)" by (simp add: leaf_at_def)
      have np: "\<not> prefix p q2" using Cons.prems(5) q True by simp
      have lc: "leaf_at child (join_slash q2)"
        using Cons.IH [OF pne p False q2 np sc l] .
      show ?thesis
      proof (cases "map_of es s")
        case None
        then have "child = Config None []" by (simp add: child_def)
        with lc getitem_empty [of None "join_slash q2"] show ?thesis
          by (auto simp: leaf_at_def)
      next
        case (Some c)
        then have "child = c" by (simp add: child_def)
        with lc Some q True t s q2 False show ?thesis
          by (simp add: leaf_at_def getitem_path_Cons del: getitem.simps)
      qed
    qed
  qed
qed

section \<open>Leaf paths\<close>

lemma proper_entry:
  assumes "proper_tree (Config pp es)" and "(k, v) \<in> set es"
  shows "segment k" and "proper_tree v" and "map_of es k = Some v"
  using assms by (auto simp: list_all_iff)

lemma leaf_paths_mem:
  "p \<in> set (leaf_paths (Config pp es)) \<longleftrightarrow>
     (\<exists>k v. (k, v) \<in> set es \<and>
        ((\<not> is_Config v \<and> p = [k]) \<or> (is_Config v \<and> (\<exists>p' \<in> set (leaf_paths v). p = k # p'))))"
  by auto

lemma leaf_paths_segments:
  "proper_tree t \<Longrightarrow> p \<in> set (leaf_paths t) \<Longrightarrow> p \<noteq> [] \<and> list_all segment p"
proof (induction t arbitrary: p)
  case (Config pp es)
  from Config.prems(2) obtain k v where kv: "(k, v) \<in> set es"
    and c: "(\<not> is_Config v \<and> p = [k]) \<or> (is_Config v \<and> (\<exists>p' \<in> set (leaf_paths v). p = k # p'))"
    unfolding leaf_paths_mem by blast
  have k: "segment k" and v: "proper_tree v"
    using proper_entry [OF Config.prems(1) kv] by simp_all
  from c show ?case
  proof
    assume "\<not> is_Config v \<and> p = [k]"
    with k show ?thesis by simp
  next
    assume "is_Config v \<and> (\<exists>p' \<in> set (leaf_paths v). p = k # p')"
    then obtain p' where p': "p' \<in> set (leaf_paths v)" "p = k # p'" by blast
    have "v \<in> Basic_BNFs.snds (k, v)" by simp
    from Config.IH [OF kv this v p'(1)] k p'(2) show ?thesis by simp
  qed
qed simp_all

lemma take_segments: "list_all segment p \<Longrightarrow> list_all segment (take m p)"
  by (auto simp: list_all_iff dest: in_set_takeD)

lemma leaf_paths_lookup:
  "proper_tree t \<Longrightarrow> p \<in> set (leaf_paths t) \<Longrightarrow>
   (\<exists>leaf. getitem t (join_slash p) = Inr leaf \<and> \<not> is_Config leaf) \<and>
   (\<forall>m. 0 < m \<and> m < length p \<longrightarrow> \<not> leaf_at t (join_slash (take m p)))"
proof (induction t arbitrary: p)
  case (Config pp es)
  from Config.prems(2) obtain k v where kv: "(k, v) \<in> set es"
    and c: "(\<not> is_Config v \<and> p = [k]) \<or> (is_Config v \<and> (\<exists>p' \<in> set (leaf_paths v). p = k # p'))"
    unfolding leaf_paths_mem by blast
  have k: "segment k" and v: "proper_tree v" and m: "map_of es k = Some v"
    using proper_entry [OF Config.prems(1) kv] by simp_all
  from c show ?case
  proof
    assume "\<not> is_Config v \<and> p = [k]"
    with k m show ?thesis by (simp add: getitem_single del: getitem.simps)
  next
    assume a: "is_Config v \<and> (\<exists>p' \<in> set (leaf_paths v). p = k # p')"
    then obtain p' where p': "p' \<in> set (leaf_paths v)" "p = k # p'" by blast
    have sn: "v \<in> Basic_BNFs.snds (k, v)" by simp
    from leaf_paths_segments [OF v p'(1)] have seg: "p' \<noteq> []" "list_all segment p'" by simp_all
    from Config.IH [OF kv sn v p'(1)] obtain leaf where
      leaf: "getitem v (join_slash p') = Inr leaf" "\<not> is_Config leaf"
      and mid: "\<forall>m. 0 < m \<and> m < length p' \<longrightarrow> \<not> leaf_at v (join_slash (take m p'))"
      by blast
    have 1: "getitem (Config pp es) (join_slash p) = Inr leaf"
      unfolding p'(2) using k seg m leaf(1) by (simp add: getitem_path_Cons del: getitem.simps)
    have 2: "\<not> leaf_at (Config pp es) (join_slash (take n p))" if n: "0 < n \<and> n < length p" for n
    proof (cases n)
      case 0
      with n show ?thesis by simp
    next
      case (Suc j)
      show ?thesis
      proof (cases j)
        case 0
        with Suc p'(2) k m a show ?thesis
          by (simp add: leaf_at_def getitem_single del: getitem.simps)
      next
        case (Suc i)
        with \<open>n = Suc j\<close> n p'(2) have j: "0 < j \<and> j < length p'" by simp
        then have ne: "take j p' \<noteq> []" using seg(1) by (cases p') auto
        have "getitem (Config pp es) (join_slash (k # take j p')) = getitem v (join_slash (take j p'))"
          using k ne take_segments [OF seg(2)] m by (simp add: getitem_path_Cons del: getitem.simps)
        with mid j \<open>n = Suc j\<close> p'(2) show ?thesis by (simp add: leaf_at_def)
      qed
    qed
    from 1 leaf(2) 2 show ?thesis by blast
  qed
qed simp_all

lemma leaf_paths_prefix_free:
  "proper_tree t \<Longrightarrow> p \<in> set (leaf_paths t) \<Longrightarrow> q \<in> set (leaf_paths t) \<Longrightarrow> prefix p q \<Longrightarrow> p = q"
proof (induction t arbitrary: p q)
  case (Config pp es)
  from Config.prems(2) obtain k v where kv: "(k, v) \<in> set es"
    and c: "(\<not> is_Config v \<and> p = [k]) \<or> (is_Config v \<and> (\<exists>p' \<in> set (leaf_paths v). p = k # p'))"
    unfolding leaf_paths_mem by blast
  from Config.prems(3) obtain k2 v2 where kv2: "(k2, v2) \<in> set es"
    and c2: "(\<not> is_Config v2 \<and> q = [k2]) \<or> (is_Config v2 \<and> (\<exists>q' \<in> set (leaf_paths v2). q = k2 # q'))"
    unfolding leaf_paths_mem by blast
  from c c2 Config.prems(4) have "k2 = k" by auto
  with proper_entry(3) [OF Config.prems(1) kv] proper_entry(3) [OF Config.prems(1) kv2]
  have "v2 = v" by simp
  have v: "proper_tree v" using proper_entry(2) [OF Config.prems(1) kv] .
  show ?case
  proof (cases "is_Config v")
    case False
    with c c2 \<open>k2 = k\<close> \<open>v2 = v\<close> show ?thesis by auto
  next
    case True
    with c c2 \<open>k2 = k\<close> \<open>v2 = v\<close> obtain p' q' where
      pq: "p' \<in> set (leaf_paths v)" "p = k # p'" "q' \<in> set (leaf_paths v)" "q = k # q'"
      by auto
    with Config.prems(4) have "prefix p' q'" by simp
    have "v \<in> Basic_BNFs.snds (k, v)" by simp
    from Config.IH [OF kv this v pq(1) pq(3) \<open>prefix p' q'\<close>] pq show ?thesis by simp
  qed
qed simp_all

lemma leaf_paths_head:
  "p \<in> set (concat (map (\<lambda>(k, v). if is_Config v then map ((#) k) (leaf_paths v) else [[k]]) es)) \<Longrightarrow>
   \<exists>k rest. p = k # rest \<and> k \<in> fst ` set es"
  by (auto split: if_splits) force+

lemma leaf_paths_distinct: "proper_tree t \<Longrightarrow> distinct (leaf_paths t)"
proof (induction t)
  case (Config pp es)
  have "distinct (concat (map (\<lambda>(k, v). if is_Config v then map ((#) k) (leaf_paths v) else [[k]]) es'))"
    if "set es' \<subseteq> set es" and "distinct (map fst es')" for es'
    using that
  proof (induction es')
    case Nil
    then show ?case by simp
  next
    case (Cons e es')
    obtain k v where e: "e = (k, v)" by (cases e)
    with Cons.prems have kv: "(k, v) \<in> set es" by simp
    have "v \<in> Basic_BNFs.snds (k, v)" by simp
    from Config.IH [OF kv this] proper_entry(2) [OF Config.prems kv]
    have dv: "distinct (leaf_paths v)" by simp
    have d1: "distinct (if is_Config v then map ((#) k) (leaf_paths v) else [[k]])"
      using dv by (simp add: distinct_map inj_on_def)
    have d2: "distinct (concat (map (\<lambda>(k, v). if is_Config v then map ((#) k) (leaf_paths v) else [[k]]) es'))"
      using Cons.IH Cons.prems by simp
    have d3: "set (if is_Config v then map ((#) k) (leaf_paths v) else [[k]]) \<inter>
        set (concat (map (\<lambda>(k, v). if is_Config v then map ((#) k) (leaf_paths v) else [[k]]) es')) = {}"
    proof (rule ccontr)
      assume "\<not> ?thesis"
      then obtain p where p1: "p \<in> set (if is_Config v then map ((#) k) (leaf_paths v) else [[k]])"
        and p2: "p \<in> set (concat (map (\<lambda>(k, v). if is_Config v then map ((#) k) (leaf_paths v) else [[k]]) es'))"
        by blast
      from p1 obtain rest where "p = k # rest" by (auto split: if_splits)
      moreover from leaf_paths_head [OF p2] obtain k' rest' where "p = k' # rest'" "k' \<in> fst ` set es'"
        by blast
      ultimately have "k \<in> fst ` set es'" by simp
      with Cons.prems(2) e show False by simp
    qed
    from d1 d2 d3 e show ?case by simp
  qed
  from this [of es] Config.prems show ?case by simp
qed simp_all

lemma keys_leaf_paths: "proper_tree t \<Longrightarrow> keys t = map join_slash (leaf_paths t)"
proof (induction t)
  case (Config pp es)
  have "(if is_Config v then map (\<lambda>sub. k @ ''/'' @ sub) (keys v) else [k]) =
      map join_slash (if is_Config v then map ((#) k) (leaf_paths v) else [[k]])"
    if kv: "(k, v) \<in> set es" for k v
  proof (cases "is_Config v")
    case False
    then show ?thesis by simp
  next
    case True
    have pv: "proper_tree v" using proper_entry(2) [OF Config.prems kv] .
    have "v \<in> Basic_BNFs.snds (k, v)" by simp
    from Config.IH [OF kv this pv] have kv': "keys v = map join_slash (leaf_paths v)" .
    have "join_slash (k # p') = k @ ''/'' @ join_slash p'" if "p' \<in> set (leaf_paths v)" for p'
      using leaf_paths_segments [OF pv that] by (simp add: join_slash_Cons)
    then have "map (\<lambda>p'. join_slash (k # p')) (leaf_paths v) =
        map (\<lambda>p'. k @ ''/'' @ join_slash p') (leaf_paths v)"
      by simp
    with True kv' show ?thesis by (simp add: comp_def)
  qed
  then have h: "map (\<lambda>(k, v). if is_Config v then map (\<lambda>sub. k @ ''/'' @ sub) (keys v) else [k]) es =
      map (\<lambda>(k, v). map join_slash (if is_Config v then map ((#) k) (leaf_paths v) else [[k]])) es"
    by (intro map_cong) auto
  have "keys (Config pp es) =
      concat (map (\<lambda>(k, v). if is_Config v then map (\<lambda>sub. k @ ''/'' @ sub) (keys v) else [k]) es)"
    by simp
  also have "\<dots> =
      concat (map (\<lambda>(k, v). map join_slash (if is_Config v then map ((#) k) (leaf_paths v) else [[k]])) es)"
    by (simp only: h)
  also have "\<dots> = map join_slash (leaf_paths (Config pp es))"
    by (simp add: map_concat comp_def case_prod_unfold)
  finally show ?case .
qed simp_all

lemma proper_wf: "proper_tree t \<Longrightarrow> wf_tree t"
proof (induction t)
  case (Config pp es)
  have "CHR ''/'' \<notin> set k \<and> wf_tree v" if kv: "(k, v) \<in> set es" for k v
  proof -
    have "v \<in> Basic_BNFs.snds (k, v)" by simp
    from Config.IH [OF kv this] proper_entry(1,2) [OF Config.prems kv] show ?thesis
      by (simp add: segment_def)
  qed
  with Config.prems show ?case by (auto simp: list_all_iff)
qed simp_all

lemma wf_getitem: "wf_tree t \<Longrightarrow> getitem t k = Inr v \<Longrightarrow> wf_tree v"
proof (induction t k rule: getitem.induct)
  case (1 pp es raw_key)
  obtain key t where sp: "split1 raw_key = (key, t)" by (cases "split1 raw_key")
  show ?case
  proof (cases t)
    case None
    with sp have "split1 raw_key = (key, None)" by simp
    from "1.prems"(2) [unfolded getitem_None [OF this]] have "map_of es key = Some v"
      by (simp split: option.splits)
    with "1.prems"(1) show ?thesis by (rule wf_tree_child)
  next
    case (Some key_tail)
    with sp have sp': "split1 raw_key = (key, Some key_tail)" by simp
    show ?thesis
    proof (cases "key_tail = []")
      case True
      with sp' have "split1 raw_key = (key, Some [])" by simp
      from "1.prems"(2) [unfolded getitem_here [OF this]] have "map_of es key = Some v"
        by (simp split: option.splits)
      with "1.prems"(1) show ?thesis by (rule wf_tree_child)
    next
      case tail: False
      show ?thesis
      proof (cases "key = []")
        case True
        with sp' have sk: "split1 raw_key = ([], Some key_tail)" by simp
        from True tail have c: "key = [] \<and> key_tail \<noteq> []" by simp
        from "1.prems"(2) [unfolded getitem_skip [OF sk tail]]
        show ?thesis using 1(1) [OF sp [symmetric] Some c "1.prems"(1)] by simp
      next
        case key: False
        then have c: "\<not> (key = [] \<and> key_tail \<noteq> [])" by simp
        from "1.prems"(2) [unfolded getitem_down [OF sp' key tail]] obtain val where
          val: "map_of es key = Some val" "getitem val key_tail = Inr v"
          by (auto split: option.splits)
        have "wf_tree val" using "1.prems"(1) val(1) by (rule wf_tree_child)
        from 1(2) [OF sp [symmetric] Some c val(1) tail this val(2)] show ?thesis .
      qed
    qed
  qed
qed simp_all

text \<open>
  \<^bold>\<open>C3.\<close> When a path of segments leads to a value that is no \<open>Config\<close> (a leaf), an
  assignment whose path goes on below that value raises: the item assignment into the
  leaf is a \<^verbatim>\<open>TypeError\<close>. The tree is left as it was, so the leaf is not overwritten.
  For instance \<^verbatim>\<open>set("a", 1)\<close> followed by \<^verbatim>\<open>set("a/b", 2)\<close>.
\<close>

theorem setitem_through_leaf:
  assumes "segs \<noteq> []" and "list_all segment segs"
    and "getitem t (join_slash segs) = Inr leaf" and "\<not> is_Config leaf" and "key_tail \<noteq> []"
  shows "setitem t (join_slash segs @ CHR ''/'' # key_tail) v = (t, Some TypeError)"
  using assms
proof (induction segs arbitrary: t)
  case Nil
  then show ?case by simp
next
  case (Cons s segs)
  from Cons.prems(3) obtain pp es where t: "t = Config pp es"
    by (cases t) auto
  have s: "s \<noteq> []" "CHR ''/'' \<notin> set s"
    using Cons.prems(2) by (auto simp: segment_def)
  show ?case
  proof (cases "segs = []")
    case True
    with Cons.prems t s have "map_of es s = Some leaf"
      by (auto simp: split1_no_slash split: option.splits)
    with True t s Cons.prems show ?thesis
      by (simp add: split1_slash setitem_leaf update_triv)
  next
    case False
    have tl: "join_slash segs \<noteq> []"
      using False Cons.prems(2) by (simp add: join_slash_nonempty)
    from Cons.prems(3) t s False tl obtain c where c: "map_of es s = Some c"
      and g: "getitem c (join_slash segs) = Inr leaf"
      by (auto simp: join_slash_Cons split1_slash split: option.splits)
    have "setitem c (join_slash segs @ CHR ''/'' # key_tail) v = (c, Some TypeError)"
      using Cons.IH [OF False _ g] Cons.prems by simp
    with t s False c show ?thesis
      by (simp add: join_slash_Cons split1_slash update_triv)
  qed
qed

theorem setitem_through_leaf_witness:
  "setitem (fst (setitem (Config None []) ''a'' (RInt 1))) ''a/b'' (RInt 2) =
     (Config None [(''a'', ConfigInt 1 (Some ''a''))], Some TypeError) \<and>
   getitem (fst (setitem (fst (setitem (Config None []) ''a'' (RInt 1))) ''a/b'' (RInt 2))) ''a'' =
     Inr (ConfigInt 1 (Some ''a''))"
proof -
  have t: "fst (setitem (Config None []) ''a'' (RInt 1)) = Config None [(''a'', ConfigInt 1 (Some ''a''))]"
    by (simp add: split1_def split_once_def)
  have g: "getitem (Config None [(''a'', ConfigInt 1 (Some ''a''))]) (join_slash [''a'']) =
      Inr (ConfigInt 1 (Some ''a''))"
    by (simp add: split1_def split_once_def)
  have "setitem (Config None [(''a'', ConfigInt 1 (Some ''a''))]) (join_slash [''a''] @ CHR ''/'' # ''b'') (RInt 2) =
      (Config None [(''a'', ConfigInt 1 (Some ''a''))], Some TypeError)"
    by (rule setitem_through_leaf [OF _ _ g]) (simp_all add: segment_def)
  with t g show ?thesis by simp
qed

lemma setitem_path_ok:
  assumes "segs \<noteq> []" and "list_all segment segs"
    and "\<forall>n. 0 < n \<and> n < length segs \<longrightarrow> \<not> leaf_at (Config pp es) (join_slash (take n segs))"
    and "\<forall>q. \<exists>val. ConfigValue_get v q = Inr val"
  shows "\<exists>t'. setitem (Config pp es) (join_slash segs) v = (t', None) \<and>
           (\<forall>n. 0 < n \<and> n < length segs \<longrightarrow>
              (\<exists>pp' es'. getitem t' (join_slash (take n segs)) = Inr (Config pp' es'))) \<and>
           (\<exists>q val. ConfigValue_get v q = Inr val \<and> getitem t' (join_slash segs) = Inr val)"
  using assms(1-3)
proof (induction segs arbitrary: pp es)
  case Nil
  then show ?case by simp
next
  case (Cons s segs)
  have s: "segment s" using Cons.prems(2) by simp
  show ?case
  proof (cases "segs = []")
    case True
    obtain val where val: "ConfigValue_get v (Some (child_path pp s)) = Inr val"
      using assms(4) by blast
    have "setitem (Config pp es) s v = (Config pp (AList.update s val es), None)"
      using s val by (simp add: setitem_single del: setitem.simps)
    moreover have "getitem (Config pp (AList.update s val es)) s = Inr val"
      using s by (simp add: getitem_single map_of_update_same del: getitem.simps)
    ultimately show ?thesis using True val by auto
  next
    case False
    have segs: "list_all segment segs" using Cons.prems(2) by simp
    have tl: "join_slash segs \<noteq> []"
      using False segs by (rule join_slash_nonempty)
    define c where "c = (case map_of es s of None \<Rightarrow> Config None [] | Some c \<Rightarrow> c)"
    have pre: "take n segs \<noteq> [] \<and> join_slash (take n segs) \<noteq> []" if "0 < n" for n
    proof -
      from that False have ne: "take n segs \<noteq> []" by (cases n; cases segs) auto
      have "list_all segment (take n segs)"
        using segs by (auto simp: list_all_iff dest: in_set_takeD)
      with ne show ?thesis by (simp add: join_slash_nonempty)
    qed
    have cfg: "is_Config c"
    proof (cases "map_of es s")
      case None
      then show ?thesis by (simp add: c_def)
    next
      case (Some x)
      have "\<not> leaf_at (Config pp es) (join_slash (take 1 (s # segs)))"
        using Cons.prems(3) False by (cases segs) auto
      with Some s show ?thesis by (simp add: leaf_at_def getitem_single c_def del: getitem.simps)
    qed
    then obtain cpp ces where c: "c = Config cpp ces" by (cases c) auto
    have H: "\<forall>n. 0 < n \<and> n < length segs \<longrightarrow> \<not> leaf_at (Config cpp ces) (join_slash (take n segs))"
    proof (intro allI impI)
      fix n assume n: "0 < n \<and> n < length segs"
      show "\<not> leaf_at (Config cpp ces) (join_slash (take n segs))"
      proof (cases "map_of es s")
        case None
        with c have "ces = []" by (simp add: c_def)
        then show ?thesis
          using getitem_empty [of cpp "join_slash (take n segs)"] by (auto simp: leaf_at_def)
      next
        case (Some x)
        with c have x: "x = Config cpp ces" by (simp add: c_def)
        from n have "\<not> leaf_at (Config pp es) (join_slash (take (Suc n) (s # segs)))"
          using Cons.prems(3) by (metis Suc_less_eq length_Cons zero_less_Suc)
        with pre [of n] n s Some x show ?thesis
          by (simp add: join_slash_Cons getitem_descend leaf_at_def del: getitem.simps)
      qed
    qed
    from Cons.IH [OF False segs H] obtain c' where
      set: "setitem (Config cpp ces) (join_slash segs) v = (c', None)"
      and mid: "\<forall>n. 0 < n \<and> n < length segs \<longrightarrow>
              (\<exists>pp' es'. getitem c' (join_slash (take n segs)) = Inr (Config pp' es'))"
      and fin: "\<exists>q val. ConfigValue_get v q = Inr val \<and> getitem c' (join_slash segs) = Inr val"
      by blast
    from setitem_Config [of cpp ces "join_slash segs" v] set
    obtain ces' where c': "c' = Config cpp ces'" by auto
    let ?t = "Config pp (AList.update s c' es)"
    have 1: "setitem (Config pp es) (join_slash (s # segs)) v = (?t, None)"
      using s tl False set c by (simp add: join_slash_Cons setitem_descend c_def [symmetric] del: setitem.simps)
    have 2: "\<exists>pp' es'. getitem ?t (join_slash (take n (s # segs))) = Inr (Config pp' es')"
      if n: "0 < n \<and> n < length (s # segs)" for n
    proof (cases n)
      case 0
      with n show ?thesis by simp
    next
      case (Suc m)
      show ?thesis
      proof (cases m)
        case 0
        with Suc s c' show ?thesis by (simp add: getitem_single map_of_update_same del: getitem.simps)
      next
        case (Suc k)
        with \<open>n = Suc m\<close> n have m: "0 < m \<and> m < length segs" by simp
        with mid obtain pp' es' where "getitem c' (join_slash (take m segs)) = Inr (Config pp' es')"
          by blast
        with pre [of m] m s \<open>n = Suc m\<close> show ?thesis
          by (simp add: join_slash_Cons getitem_descend map_of_update_same del: getitem.simps)
      qed
    qed
    have 3: "\<exists>q val. ConfigValue_get v q = Inr val \<and> getitem ?t (join_slash (s # segs)) = Inr val"
      using fin s tl False by (simp add: join_slash_Cons getitem_descend map_of_update_same del: getitem.simps)
    from 1 2 3 show ?thesis by blast
  qed
qed

text \<open>
  \<^bold>\<open>C2.\<close> An assignment at a path of several segments, none of whose proper prefixes leads
  to a leaf, succeeds (for a value that \<^verbatim>\<open>ConfigValue.get\<close> wraps); afterwards every proper
  prefix of the path leads to a \<open>Config\<close>, created where it was absent, and the whole path
  leads to the wrapped value. From the empty tree, \<^verbatim>\<open>set("a/b/c", 5)\<close> gives
  \<^verbatim>\<open>get("a/b/c") == 5\<close> with subtrees at \<^verbatim>\<open>a\<close> and \<^verbatim>\<open>a/b\<close>.
\<close>

theorem setitem_creates_subtrees:
  assumes "segs \<noteq> []" and "list_all segment segs"
    and "\<forall>n. 0 < n \<and> n < length segs \<longrightarrow> \<not> leaf_at (Config pp es) (join_slash (take n segs))"
    and "\<forall>q. \<exists>val. ConfigValue_get v q = Inr val"
  shows "\<exists>t'. setitem (Config pp es) (join_slash segs) v = (t', None) \<and>
           (\<forall>n. 0 < n \<and> n < length segs \<longrightarrow>
              (\<exists>pp' es'. getitem t' (join_slash (take n segs)) = Inr (Config pp' es'))) \<and>
           (\<exists>q val. ConfigValue_get v q = Inr val \<and> getitem t' (join_slash segs) = Inr val)"
  using assms by (rule setitem_path_ok)

theorem setitem_creates_subtrees_witness:
  "setitem (Config None []) ''a/b/c'' (RInt 5) =
     (Config None [(''a'', Config None [(''b'', Config None [(''c'', ConfigInt 5 (Some ''c''))])])], None) \<and>
   map_sum id plain
     (getitem (Config None [(''a'', Config None [(''b'', Config None [(''c'', ConfigInt 5 (Some ''c''))])])])
        ''a/b/c'') = Inr (RInt 5) \<and>
   (\<exists>pp' es'.
      getitem (Config None [(''a'', Config None [(''b'', Config None [(''c'', ConfigInt 5 (Some ''c''))])])])
        ''a'' = Inr (Config pp' es')) \<and>
   (\<exists>pp' es'.
      getitem (Config None [(''a'', Config None [(''b'', Config None [(''c'', ConfigInt 5 (Some ''c''))])])])
        ''a/b'' = Inr (Config pp' es'))"
proof -
  let ?segs = "[''a'', ''b'', ''c'']"
  let ?T = "Config None [(''a'', Config None [(''b'', Config None [(''c'', ConfigInt 5 (Some ''c''))])])]"
  have h1: "?segs \<noteq> []" by simp
  have h2: "list_all segment ?segs" by (simp add: segment_def)
  have h3: "\<forall>n. 0 < n \<and> n < length ?segs \<longrightarrow>
      \<not> leaf_at (Config None []) (join_slash (take n ?segs))"
  proof (intro allI impI)
    fix n
    obtain k where "getitem (Config None []) (join_slash (take n ?segs)) = Inl (KeyError k)"
      using getitem_empty by blast
    then show "\<not> leaf_at (Config None []) (join_slash (take n ?segs))"
      by (simp add: leaf_at_def)
  qed
  have h4: "\<forall>q. \<exists>val. ConfigValue_get (RInt 5) q = Inr val" by simp
  from setitem_creates_subtrees [OF h1 h2 h3 h4] obtain t' where
    t': "setitem (Config None []) (join_slash ?segs) (RInt 5) = (t', None)"
    and mid: "\<forall>n. 0 < n \<and> n < length ?segs \<longrightarrow>
        (\<exists>pp' es'. getitem t' (join_slash (take n ?segs)) = Inr (Config pp' es'))"
    and fin: "\<exists>q val. ConfigValue_get (RInt 5) q = Inr val \<and> getitem t' (join_slash ?segs) = Inr val"
    by blast
  have ev: "setitem (Config None []) ''a/b/c'' (RInt 5) = (?T, None)"
    by (simp add: split1_def split_once_def)
  with t' have eq: "t' = ?T" by simp
  from mid have "\<exists>pp' es'. getitem t' (join_slash (take 1 ?segs)) = Inr (Config pp' es')"
    by (metis One_nat_def length_Cons less_Suc_eq zero_less_one list.size(3) lessI Suc_lessD)
  then have a: "\<exists>pp' es'. getitem ?T ''a'' = Inr (Config pp' es')"
    unfolding eq by simp
  from mid have "\<exists>pp' es'. getitem t' (join_slash (take 2 ?segs)) = Inr (Config pp' es')"
    by (metis length_Cons list.size(3) numeral_2_eq_2 lessI zero_less_Suc)
  then have b: "\<exists>pp' es'. getitem ?T ''a/b'' = Inr (Config pp' es')"
    unfolding eq by (simp add: numeral_2_eq_2)
  from fin obtain q val where "ConfigValue_get (RInt 5) q = Inr val"
    and "getitem ?T (join_slash ?segs) = Inr val" unfolding eq by blast
  then have c: "map_sum id plain (getitem ?T ''a/b/c'') = Inr (RInt 5)"
    by auto
  from ev a b c show ?thesis by blast
qed

section \<open>Parental paths\<close>

text \<open>
  \<^bold>\<open>C4.\<close> The claim: after every assignment the \<^verbatim>\<open>parental_path\<close> of a child is its parent's
  path, a slash and the key (or the key alone under the root), also for the nodes an
  assignment creates on its way and the leaves below them. What the code does at
  \<^verbatim>\<open>set("a/b/c", 5)\<close> on an empty root: the nodes created for \<^verbatim>\<open>a\<close> and \<^verbatim>\<open>a/b\<close> come from
  \<^verbatim>\<open>Config()\<close> and have no parental path, and the leaf gets the path \<^verbatim>\<open>c\<close>, not \<^verbatim>\<open>a/b/c\<close>.
  A nested mapping given as the value does get the paths the claim states.
\<close>

theorem auto_created_nodes_have_no_parental_path:
  "setitem (Config None []) ''a/b/c'' (RInt 5) =
     (Config None [(''a'', Config None [(''b'', Config None [(''c'', ConfigInt 5 (Some ''c''))])])],
      None) \<and>
   setitem (Config None []) ''a'' (RDict [(''b'', RDict [(''c'', RInt 5)])]) =
     (Config None
        [(''a'', Config (Some ''a'') [(''b'', Config (Some ''a/b'') [(''c'', ConfigInt 5 (Some ''a/b/c''))])])],
      None)"
  by (simp add: split1_def split_once_def)

section \<open>Flattening\<close>

text \<open>
  \<^bold>\<open>C5.\<close> The claim: \<^verbatim>\<open>deep_items\<close> pairs every leaf path with its leaf, expanding the
  subtrees at every depth, so that no pair holds a subtree. What the code does on the tree
  that \<^verbatim>\<open>set("a/b/c", 5)\<close> builds: it expands one level only and returns the pair of
  \<^verbatim>\<open>a/b\<close> and the subtree stored there, while \<^verbatim>\<open>keys\<close> on the same tree goes all the way
  down to \<^verbatim>\<open>a/b/c\<close>.
\<close>

theorem deep_items_stops_after_one_level:
  "deep_items (fst (setitem (Config None []) ''a/b/c'' (RInt 5))) =
     [(''a/b'', Config None [(''c'', ConfigInt 5 (Some ''c''))])] \<and>
   keys (fst (setitem (Config None []) ''a/b/c'' (RInt 5))) = [''a/b/c'']"
  by (simp add: split1_def split_once_def)

section \<open>Diff\<close>

text \<open>
  \<^bold>\<open>C6.\<close> The claim: \<^verbatim>\<open>A.diff(B)\<close> has one entry for each leaf key of \<open>A\<close> that \<open>B\<close> holds with
  an unequal value, and passes over the leaf keys of \<open>A\<close> that \<open>B\<close> lacks. What the code does
  when \<open>A\<close> is built from \<^verbatim>\<open>{"a": {"b": 1}}\<close> and \<open>B\<close> from \<^verbatim>\<open>{"a": 5}\<close>: the lookup of
  \<^verbatim>\<open>a/b\<close> in \<open>B\<close> goes below the leaf \<^verbatim>\<open>5\<close> and raises \<^verbatim>\<open>TypeError\<close>, which
  \<^verbatim>\<open>except KeyError\<close> does not catch, so \<^verbatim>\<open>diff\<close> raises and returns no list. On the trees
  of \<^verbatim>\<open>{"x": 5}\<close> and \<^verbatim>\<open>{"x": 6, "y": 7}\<close> it returns the one entry the claim names, and the
  integer \<^verbatim>\<open>12\<close> against the string \<^verbatim>\<open>"12"\<close> gives an entry.
\<close>

theorem diff_raises_below_a_leaf_of_other:
  "Config_init (Some [(''a'', RDict [(''b'', RInt 1)])]) None =
     Inr (Config None [(''a'', Config (Some ''a'') [(''b'', ConfigInt 1 (Some ''a/b''))])]) \<and>
   Config_init (Some [(''a'', RInt 5)]) None = Inr (Config None [(''a'', ConfigInt 5 (Some ''a''))]) \<and>
   diff (Config None [(''a'', Config (Some ''a'') [(''b'', ConfigInt 1 (Some ''a/b''))])])
        (Config None [(''a'', ConfigInt 5 (Some ''a''))]) = Inl TypeError \<and>
   diff (Config None [(''x'', ConfigInt 5 (Some ''x''))])
        (Config None [(''x'', ConfigInt 6 (Some ''x'')), (''y'', ConfigInt 7 (Some ''y''))]) =
     Inr [(''x'', ConfigInt 5 (Some ''x''), ConfigInt 6 (Some ''x''))] \<and>
   diff (Config None [(''x'', ConfigInt 12 (Some ''x''))])
        (Config None [(''x'', ConfigString ''12'' (Some ''x''))]) =
     Inr [(''x'', ConfigInt 12 (Some ''x''), ConfigString ''12'' (Some ''x''))]"
  by (simp add: diff_def py_eq_def split1_def split_once_def)

section \<open>Mandatory lookup\<close>













section \<open>The client\<close>

text \<open>
  \<^bold>\<open>C10\<close>, as the claim states it, fails: with the environment variable set, a timeout of 0
  makes the loop end before its first pass, so that \<^verbatim>\<open>TimeoutError\<close> is raised although the
  variable holds an endpoint (the deadline is the sum of the doubles 0 and 0, which is
  exact); and a client that has an endpoint cached returns the cached one, whatever the
  variable holds.
\<close>

theorem locate_ignores_environment_counterexample:
  "get_manager_endpoint (\<lambda>x y. x + y) 1
     \<lparr>environ = (\<lambda>n. Some ''tcp://cm:5555''), fallback_file = (\<lambda>n. None), clock = (\<lambda>n. of_nat n)\<rparr>
     None (Some 0) =
   Some \<lparr>outcome = Inl TimeoutError, endpoint_after = None, file_reads = 0, sleeps = 0\<rparr> \<and>
   get_manager_endpoint (\<lambda>x y. x + y) 1
     \<lparr>environ = (\<lambda>n. Some ''tcp://cm:5555''), fallback_file = (\<lambda>n. None), clock = (\<lambda>n. of_nat n)\<rparr>
     (Some ''tcp://old:1'') None =
   Some \<lparr>outcome = Inr ''tcp://old:1'', endpoint_after = Some ''tcp://old:1'', file_reads = 0, sleeps = 0\<rparr>"
  by (simp add: get_manager_endpoint_def)

text \<open>
  \<^bold>\<open>C10\<close>, amended. Without a cached endpoint: when the environment variable is set at the
  first pass and the first check of the loop passes (there is no timeout, or the clock
  reads less than the double that \<^verbatim>\<open>timestamp + timeout\<close> rounds to), the variable's value is
  returned and cached, after one pass and without a read of the file; and with a timeout
  of 0, which added to the timestamp leaves it as it is, and a clock that does not run
  backwards, \<^verbatim>\<open>TimeoutError\<close> is raised at once, without a pass, a sleep or a read, whatever
  the variable and the file hold. With a cached endpoint, the cached endpoint is returned.
\<close>

theorem locate_cold_and_warm:
  "(cache = None \<or> cache = Some [] \<longrightarrow>
      (environ w 0 = Some ep \<and>
       (case timeout of None \<Rightarrow> True | Some tm \<Rightarrow> clock w 1 < float_add (clock w 0) tm) \<longrightarrow>
         get_manager_endpoint float_add (Suc fuel) w cache timeout =
           Some \<lparr>outcome = Inr ep, endpoint_after = Some ep, file_reads = 0, sleeps = 1\<rparr>) \<and>
      (timeout = Some 0 \<and> float_add (clock w 0) 0 = clock w 0 \<and> clock w 0 \<le> clock w 1 \<longrightarrow>
         get_manager_endpoint float_add fuel w cache timeout =
           Some \<lparr>outcome = Inl TimeoutError, endpoint_after = cache, file_reads = 0, sleeps = 0\<rparr>)) \<and>
   (cache = Some ep' \<and> ep' \<noteq> [] \<longrightarrow>
      get_manager_endpoint float_add fuel w cache timeout =
        Some \<lparr>outcome = Inr ep', endpoint_after = cache, file_reads = 0, sleeps = 0\<rparr>)"
proof (intro conjI impI)
  assume c: "cache = None \<or> cache = Some []"
    and e: "environ w 0 = Some ep \<and>
       (case timeout of None \<Rightarrow> True | Some tm \<Rightarrow> clock w 1 < float_add (clock w 0) tm)"
  have "locate_loop float_add (Suc fuel) w timeout (clock w 0) 0 1 None 0 = Some (Some ep, 0, 1)"
    using e by (cases fuel; cases timeout) auto
  with c show "get_manager_endpoint float_add (Suc fuel) w cache timeout =
           Some \<lparr>outcome = Inr ep, endpoint_after = Some ep, file_reads = 0, sleeps = 1\<rparr>"
    by (auto simp: get_manager_endpoint_def)
next
  assume c: "cache = None \<or> cache = Some []"
    and e: "timeout = Some 0 \<and> float_add (clock w 0) 0 = clock w 0 \<and> clock w 0 \<le> clock w 1"
  have "locate_loop float_add fuel w timeout (clock w 0) 0 1 None 0 = Some (None, 0, 0)"
    using e by (cases fuel) auto
  with c show "get_manager_endpoint float_add fuel w cache timeout =
           Some \<lparr>outcome = Inl TimeoutError, endpoint_after = cache, file_reads = 0, sleeps = 0\<rparr>"
    by (auto simp: get_manager_endpoint_def)
next
  assume "cache = Some ep' \<and> ep' \<noteq> []"
  then show "get_manager_endpoint float_add fuel w cache timeout =
        Some \<lparr>outcome = Inr ep', endpoint_after = cache, file_reads = 0, sleeps = 0\<rparr>"
    by (simp add: get_manager_endpoint_def)
qed

theorem locate_cold_and_warm_witness:
  "get_manager_endpoint (\<lambda>x y. x + y) 1
     \<lparr>environ = (\<lambda>n. Some ''tcp://cm:5555''), fallback_file = (\<lambda>n. Some ''tcp://file:1''),
      clock = (\<lambda>n. of_nat n)\<rparr> None None =
   Some \<lparr>outcome = Inr ''tcp://cm:5555'', endpoint_after = Some ''tcp://cm:5555'',
         file_reads = 0, sleeps = 1\<rparr> \<and>
   get_manager_endpoint (\<lambda>x y. x + y) 1
     \<lparr>environ = (\<lambda>n. Some ''tcp://cm:5555''), fallback_file = (\<lambda>n. Some ''tcp://file:1''),
      clock = (\<lambda>n. of_nat n)\<rparr> None (Some 5) =
   Some \<lparr>outcome = Inr ''tcp://cm:5555'', endpoint_after = Some ''tcp://cm:5555'',
         file_reads = 0, sleeps = 1\<rparr> \<and>
   get_manager_endpoint (\<lambda>x y. x + y) 3
     \<lparr>environ = (\<lambda>n. None), fallback_file = (\<lambda>n. None), clock = (\<lambda>n. of_nat n)\<rparr> None (Some 0) =
   Some \<lparr>outcome = Inl TimeoutError, endpoint_after = None, file_reads = 0, sleeps = 0\<rparr> \<and>
   get_manager_endpoint (\<lambda>x y. x + y) 0
     \<lparr>environ = (\<lambda>n. None), fallback_file = (\<lambda>n. None), clock = (\<lambda>n. of_nat n)\<rparr>
     (Some ''tcp://old:1'') None =
   Some \<lparr>outcome = Inr ''tcp://old:1'', endpoint_after = Some ''tcp://old:1'',
         file_reads = 0, sleeps = 0\<rparr>"
proof -
  let ?w1 = "\<lparr>environ = (\<lambda>n. Some ''tcp://cm:5555''), fallback_file = (\<lambda>n. Some ''tcp://file:1''),
      clock = (\<lambda>n. of_nat n)\<rparr>"
  let ?w2 = "\<lparr>environ = (\<lambda>n. None), fallback_file = (\<lambda>n. None), clock = (\<lambda>n. of_nat n)\<rparr>"
  let ?add = "\<lambda>x y :: rat. x + y"
  have a: "get_manager_endpoint ?add (Suc 0) ?w1 None None =
      Some \<lparr>outcome = Inr ''tcp://cm:5555'', endpoint_after = Some ''tcp://cm:5555'',
            file_reads = 0, sleeps = 1\<rparr>"
    using locate_cold_and_warm [where cache = None and w = ?w1 and ep = "''tcp://cm:5555''"
        and timeout = None and fuel = 0 and float_add = ?add] by simp
  have a5: "get_manager_endpoint ?add (Suc 0) ?w1 None (Some 5) =
      Some \<lparr>outcome = Inr ''tcp://cm:5555'', endpoint_after = Some ''tcp://cm:5555'',
            file_reads = 0, sleeps = 1\<rparr>"
    using locate_cold_and_warm [where cache = None and w = ?w1 and ep = "''tcp://cm:5555''"
        and timeout = "Some 5" and fuel = 0 and float_add = ?add] by simp
  have b: "get_manager_endpoint ?add 3 ?w2 None (Some 0) =
      Some \<lparr>outcome = Inl TimeoutError, endpoint_after = None, file_reads = 0, sleeps = 0\<rparr>"
    using locate_cold_and_warm [where cache = None and w = ?w2 and timeout = "Some 0" and fuel = 3
        and float_add = ?add]
    by simp
  have c: "get_manager_endpoint ?add 0 ?w2 (Some ''tcp://old:1'') None =
      Some \<lparr>outcome = Inr ''tcp://old:1'', endpoint_after = Some ''tcp://old:1'',
            file_reads = 0, sleeps = 0\<rparr>"
    using locate_cold_and_warm [where cache = "Some ''tcp://old:1''" and ep' = "''tcp://old:1''"
        and w = ?w2 and timeout = None and fuel = 0 and float_add = ?add] by simp
  from a a5 b c show ?thesis by simp
qed

text \<open>
  Where the sum rounds back to the timestamp (a timeout of \<^verbatim>\<open>2**-30\<close> seconds at the
  reading 1700000000, less than half the spacing of the doubles there), the first check
  fails as with a timeout of 0, and the variable is not read.
\<close>

lemma locate_deadline_rounds_to_timestamp:
  "get_manager_endpoint (\<lambda>x y. x) 1
     \<lparr>environ = (\<lambda>n. Some ''tcp://cm:5555''), fallback_file = (\<lambda>n. None),
      clock = (\<lambda>n. 1700000000)\<rparr> None (Some (1 / 2 ^ 30)) =
   Some \<lparr>outcome = Inl TimeoutError, endpoint_after = None, file_reads = 0, sleeps = 0\<rparr>"
  by (simp add: get_manager_endpoint_def)

text \<open>
  \<^bold>\<open>C9.\<close> The claim: on a reply whose status frame is \<^verbatim>\<open>0\<close>, \<^verbatim>\<open>get_config\<close> returns the tree
  decoded from the payload; on any other status it raises an exception with the payload
  as its text. What the code does once the endpoint is found, on the replies
  \<^verbatim>\<open>[b"0", b"None:{}"]\<close> and \<^verbatim>\<open>[b"1", b"no such path"]\<close>: it raises \<^verbatim>\<open>AttributeError\<close> at
  \<^verbatim>\<open>logger.debuf\<close>, before it waits for the reply.
\<close>

theorem get_config_raises_before_the_reply:
  "get_config float_add 1
     \<lparr>environ = (\<lambda>n. Some ''tcp://cm:5555''), fallback_file = (\<lambda>n. None), clock = (\<lambda>n. of_nat n)\<rparr>
     None loads ''a'' None 1 [''0'', ''None:{}''] =
     Some (Inl AttributeError, Some ''tcp://cm:5555'') \<and>
   get_config float_add 1
     \<lparr>environ = (\<lambda>n. Some ''tcp://cm:5555''), fallback_file = (\<lambda>n. None), clock = (\<lambda>n. of_nat n)\<rparr>
     None loads ''a'' None 1 [''1'', ''no such path''] =
     Some (Inl AttributeError, Some ''tcp://cm:5555'')"
  by (simp add: get_config_def get_manager_endpoint_def logger_debuf_def)

section \<open>Serialisation round trip\<close>

lemma Config_fill_Config:
  "Config_fill (Config pp acc) kvs = Inr x \<Longrightarrow> \<exists>es. x = Config pp es"
proof (induction kvs arbitrary: acc)
  case Nil
  then show ?case by auto
next
  case (Cons kv kvs)
  obtain k v where kv: "kv = (k, v)" by (cases kv)
  obtain es' err where s: "setitem (Config pp acc) k v = (Config pp es', err)"
    using setitem_Config by blast
  with Cons.prems kv have "Config_fill (Config pp es') kvs = Inr x"
    by (cases err) (simp_all del: setitem.simps)
  then show ?case by (rule Cons.IH)
qed

lemma serialise_Config:
  "dumps (plain (Config pp es)) = Inr js \<Longrightarrow>
   serialise dumps (Config pp es) = Inr (path_text pp @ CHR '':'' # js)"
  by simp

lemma deserialise_text:
  assumes "CHR '':'' \<notin> set p" and "loads js = Inr r"
  shows "deserialise loads (p @ CHR '':'' # js) = ConfigValue_get r (Some p)"
  using assms by (simp add: deserialise_def split_once_sep)

text \<open>
  \<^bold>\<open>C1\<close>, as the claim states it, fails on a tree whose parental path holds a colon:
  \<^verbatim>\<open>deserialise\<close> cuts the text at its first colon, inside the path, and what it hands to
  \<^verbatim>\<open>json.loads\<close> is no JSON text. Such a tree is the subtree stored under the key \<^verbatim>\<open>a:b\<close>
  of the tree built from \<^verbatim>\<open>{"a:b": {"k": 1}}\<close>.
\<close>

theorem roundtrip_colon_in_path_counterexample:
  "Config_init (Some [(''a:b'', RDict [(''k'', RInt 1)])]) None =
     Inr (Config None [(''a:b'', Config (Some ''a:b'') [(''k'', ConfigInt 1 (Some ''a:b/k''))])]) \<and>
   getitem (Config None [(''a:b'', Config (Some ''a:b'') [(''k'', ConfigInt 1 (Some ''a:b/k''))])]) ''a:b'' =
     Inr (Config (Some ''a:b'') [(''k'', ConfigInt 1 (Some ''a:b/k''))]) \<and>
   sample_dumps (plain (Config (Some ''a:b'') [(''k'', ConfigInt 1 (Some ''a:b/k''))])) = Inr sample_text \<and>
   sample_loads sample_text = Inr (plain (Config (Some ''a:b'') [(''k'', ConfigInt 1 (Some ''a:b/k''))])) \<and>
   serialise sample_dumps (Config (Some ''a:b'') [(''k'', ConfigInt 1 (Some ''a:b/k''))]) =
     Inr (''a:b:'' @ sample_text) \<and>
   deserialise sample_loads (''a:b:'' @ sample_text) = Inl JSONDecodeError"
  by (simp add: split1_def split_once_def sample_dumps_def sample_loads_def sample_text_def
      deserialise_def)

text \<open>
  \<^bold>\<open>C1\<close>, amended. For a tree built from a raw mapping with a parental path that holds no
  colon (\<^verbatim>\<open>None\<close>, the default, prints as the text \<^verbatim>\<open>None\<close>), and a JSON codec that gives the
  tree's plain value back from the text it wrote for it: \<^verbatim>\<open>deserialise\<close> of the serialised
  tree returns a tree with the same plain value, hence the same leaf paths in the same
  order, and every lookup gives the same plain value (or the same error) in both trees.
\<close>

theorem serialise_deserialise_roundtrip:
  assumes "Config_init (Some contents) pp = Inr t"
    and "CHR '':'' \<notin> set (path_text pp)"
    and "dumps (plain t) = Inr js" and "loads js = Inr (plain t)"
  shows "\<exists>t'. serialise dumps t = Inr (path_text pp @ CHR '':'' # js) \<and>
           deserialise loads (path_text pp @ CHR '':'' # js) = Inr t' \<and>
           plain t' = plain t \<and> keys t' = keys t \<and>
           (\<forall>k. map_sum id plain (getitem t' k) = map_sum id plain (getitem t k))"
proof -
  from assms(1) have fill: "Config_fill (Config pp []) contents = Inr t" by simp
  then obtain es where t: "t = Config pp es" using Config_fill_Config by blast
  have "wf_tree (Config pp [])" by simp
  with fill have wf: "wf_tree t"
    using wf_tree_built(3) [of "Config pp []" contents] by simp
  from rewrap [OF wf] obtain t' where
    t': "ConfigValue_get (plain t) (Some (path_text pp)) = Inr t'" "plain t' = plain t"
    by blast
  have 1: "serialise dumps t = Inr (path_text pp @ CHR '':'' # js)"
    using assms(3) unfolding t by (rule serialise_Config)
  have 2: "deserialise loads (path_text pp @ CHR '':'' # js) = Inr t'"
    using deserialise_text [where loads = loads and js = js, OF assms(2) assms(4)] t'(1) by simp
  have 3: "keys t' = keys t" using t'(2) by (rule plain_eq_keys)
  have 4: "\<forall>k. map_sum id plain (getitem t' k) = map_sum id plain (getitem t k)"
    using t'(2) by (intro allI plain_eq_getitem)
  show ?thesis
    using 1 2 t'(2) 3 4 by (intro exI [of _ t'] conjI)
qed

theorem serialise_deserialise_roundtrip_witness:
  "Config_init (Some [(''k'', RInt 1)]) None = Inr (Config None [(''k'', ConfigInt 1 (Some ''k''))]) \<and>
   serialise sample_dumps (Config None [(''k'', ConfigInt 1 (Some ''k''))]) = Inr (''None:'' @ sample_text) \<and>
   deserialise sample_loads (''None:'' @ sample_text) =
     Inr (Config (Some ''None'') [(''k'', ConfigInt 1 (Some ''None/k''))]) \<and>
   keys (Config (Some ''None'') [(''k'', ConfigInt 1 (Some ''None/k''))]) =
     keys (Config None [(''k'', ConfigInt 1 (Some ''k''))]) \<and>
   map_sum id plain (getitem (Config (Some ''None'') [(''k'', ConfigInt 1 (Some ''None/k''))]) ''k'') = Inr (RInt 1)"
proof -
  let ?t = "Config None [(''k'', ConfigInt 1 (Some ''k''))]"
  have b: "Config_init (Some [(''k'', RInt 1)]) None = Inr ?t"
    by (simp add: split1_def split_once_def)
  have c: "CHR '':'' \<notin> set (path_text None)" by simp
  have d: "sample_dumps (plain ?t) = Inr sample_text" by (simp add: sample_dumps_def)
  have l: "sample_loads sample_text = Inr (plain ?t)" by (simp add: sample_loads_def)
  from serialise_deserialise_roundtrip [where dumps = sample_dumps and loads = sample_loads, OF b c d l] obtain t' where
    r: "serialise sample_dumps ?t = Inr (path_text None @ CHR '':'' # sample_text)"
       "deserialise sample_loads (path_text None @ CHR '':'' # sample_text) = Inr t'"
       "keys t' = keys ?t"
       "\<forall>k. map_sum id plain (getitem t' k) = map_sum id plain (getitem ?t k)"
    by blast
  have e: "deserialise sample_loads (''None:'' @ sample_text) =
      Inr (Config (Some ''None'') [(''k'', ConfigInt 1 (Some ''None/k''))])"
    by (simp add: deserialise_def split_once_def sample_loads_def split1_def)
  with r(2) have t': "t' = Config (Some ''None'') [(''k'', ConfigInt 1 (Some ''None/k''))]" by simp
  from r(1) have s: "serialise sample_dumps ?t = Inr (''None:'' @ sample_text)" by simp
  from r(4) have "map_sum id plain (getitem t' ''k'') = map_sum id plain (getitem ?t ''k'')" by blast
  then have g: "map_sum id plain (getitem t' ''k'') = Inr (RInt 1)"
    by (simp add: split1_def split_once_def)
  from b s e r(3) g show ?thesis unfolding t' by blast
qed

section \<open>Applying a diff\<close>

lemma apply_diff_Item3:
  "k \<noteq> [] \<Longrightarrow> setitem t k n = (t1, None) \<Longrightarrow>
   apply_diff t (Item3 k old n # rest) = apply_diff t1 rest"
  by (simp del: setitem.simps)

lemma apply_diff_paths:
  assumes "is_Config t"
    and "\<forall>p \<in> set ps. p \<noteq> [] \<and> list_all segment p \<and>
           (\<forall>m. 0 < m \<and> m < length p \<longrightarrow> \<not> leaf_at t (join_slash (take m p))) \<and>
           (\<forall>q. \<exists>val. ConfigValue_get (nv p) q = Inr val \<and> plain val = nv p)"
    and "distinct ps" and "\<forall>p \<in> set ps. \<forall>q \<in> set ps. prefix p q \<longrightarrow> p = q"
  shows "\<exists>t'. apply_diff t (map (\<lambda>p. Item3 (join_slash p) (ov p) (nv p)) ps) = (t', None) \<and>
           (\<forall>p \<in> set ps. \<exists>val. getitem t' (join_slash p) = Inr val \<and> plain val = nv p) \<and>
           (\<forall>q x. q \<noteq> [] \<and> list_all segment q \<and> (\<forall>p \<in> set ps. \<not> prefix p q \<and> \<not> prefix q p) \<and>
                  getitem t (join_slash q) = Inr x \<longrightarrow> getitem t' (join_slash q) = Inr x)"
  using assms
proof (induction ps arbitrary: t)
  case Nil
  then show ?case by simp
next
  case (Cons p ps)
  from Cons.prems(1) obtain pp es where t: "t = Config pp es" by (cases t) auto
  from Cons.prems(2) have p: "p \<noteq> []" "list_all segment p"
    and mid: "\<forall>m. 0 < m \<and> m < length p \<longrightarrow> \<not> leaf_at (Config pp es) (join_slash (take m p))"
    and wrap: "\<forall>q. \<exists>val. ConfigValue_get (nv p) q = Inr val \<and> plain val = nv p"
    unfolding t by simp_all
  from wrap have wrap': "\<forall>q. \<exists>val. ConfigValue_get (nv p) q = Inr val" by blast
  from setitem_path_ok [OF p mid wrap'] obtain t1 q0 val where
    set: "setitem t (join_slash p) (nv p) = (t1, None)"
    and cv: "ConfigValue_get (nv p) q0 = Inr val" and g1: "getitem t1 (join_slash p) = Inr val"
    unfolding t by blast
  from wrap cv have pv: "plain val = nv p" by (metis sum.inject(2))
  have cfg1: "is_Config t1" using setitem_ok_Config [OF set] by simp
  have jp: "join_slash p \<noteq> []" using p by (rule join_slash_nonempty)
  have inc: "\<not> prefix p q \<and> \<not> prefix q p" if "q \<in> set ps" for q
    using Cons.prems(3,4) that by auto
  have pre1: "\<forall>p' \<in> set ps. p' \<noteq> [] \<and> list_all segment p' \<and>
           (\<forall>m. 0 < m \<and> m < length p' \<longrightarrow> \<not> leaf_at t1 (join_slash (take m p'))) \<and>
           (\<forall>q. \<exists>val. ConfigValue_get (nv p') q = Inr val \<and> plain val = nv p')"
  proof (intro ballI conjI allI impI)
    fix p' assume p': "p' \<in> set ps"
    with Cons.prems(2) show "p' \<noteq> []" and "list_all segment p'" by simp_all
    fix q
    from Cons.prems(2) p' show "\<exists>val. ConfigValue_get (nv p') q = Inr val \<and> plain val = nv p'"
      by simp
  next
    fix p' m assume p': "p' \<in> set ps" and m: "0 < m \<and> m < length p'"
    from Cons.prems(2) p' have sp': "p' \<noteq> []" "list_all segment p'"
      and np: "\<not> leaf_at t (join_slash (take m p'))"
      using m by simp_all
    have tk: "take m p' \<noteq> []" using m sp'(1) by (cases p') auto
    have "\<not> prefix p (take m p')"
    proof
      assume "prefix p (take m p')"
      then have "prefix p p'" using take_is_prefix [of m p'] by (rule prefix_order.trans)
      with inc [OF p'] show False by simp
    qed
    with setitem_leaf_frame [OF p tk take_segments [OF sp'(2)] _ set] np
    show "\<not> leaf_at t1 (join_slash (take m p'))" by blast
  qed
  have d1: "distinct ps" and f1: "\<forall>p \<in> set ps. \<forall>q \<in> set ps. prefix p q \<longrightarrow> p = q"
    using Cons.prems(3,4) by simp_all
  from Cons.IH [OF cfg1 pre1 d1 f1] obtain t' where
    ap: "apply_diff t1 (map (\<lambda>p. Item3 (join_slash p) (ov p) (nv p)) ps) = (t', None)"
    and fin: "\<forall>p \<in> set ps. \<exists>val. getitem t' (join_slash p) = Inr val \<and> plain val = nv p"
    and frame: "\<forall>q x. q \<noteq> [] \<and> list_all segment q \<and> (\<forall>p \<in> set ps. \<not> prefix p q \<and> \<not> prefix q p) \<and>
                  getitem t1 (join_slash q) = Inr x \<longrightarrow> getitem t' (join_slash q) = Inr x"
    by blast
  have 1: "apply_diff t (map (\<lambda>p. Item3 (join_slash p) (ov p) (nv p)) (p # ps)) = (t', None)"
    using apply_diff_Item3 [OF jp set] ap by simp
  have "getitem t' (join_slash p) = Inr val"
    using frame p inc g1 by blast
  with pv fin have 2: "\<forall>p' \<in> set (p # ps). \<exists>val. getitem t' (join_slash p') = Inr val \<and> plain val = nv p'"
    by simp
  have 3: "\<forall>q x. q \<noteq> [] \<and> list_all segment q \<and> (\<forall>p' \<in> set (p # ps). \<not> prefix p' q \<and> \<not> prefix q p') \<and>
                  getitem t (join_slash q) = Inr x \<longrightarrow> getitem t' (join_slash q) = Inr x"
  proof (intro allI impI)
    fix q x
    assume a: "q \<noteq> [] \<and> list_all segment q \<and> (\<forall>p' \<in> set (p # ps). \<not> prefix p' q \<and> \<not> prefix q p') \<and>
                  getitem t (join_slash q) = Inr x"
    then have "getitem (fst (setitem t (join_slash p) (nv p))) (join_slash q) = Inr x"
      using p by (intro setitem_frame) simp_all
    with set have "getitem t1 (join_slash q) = Inr x" by simp
    with a frame show "getitem t' (join_slash q) = Inr x" by simp
  qed
  from 1 2 3 show ?case by blast
qed

lemma diff_loop_result:
  "diff_loop a b ks acc = Inr ds \<Longrightarrow>
   ds = acc @ concat (map (\<lambda>k.
          case getitem b k of
            Inl e \<Rightarrow> []
          | Inr n \<Rightarrow> (case getitem a k of
                        Inl e \<Rightarrow> []
                      | Inr old \<Rightarrow> if \<not> py_eq n old then [(k, old, n)] else [])) ks) \<and>
   (\<forall>k \<in> set ks. \<forall>e. getitem b k = Inl e \<longrightarrow> (\<exists>x. e = KeyError x))"
proof (induction ks arbitrary: acc)
  case Nil
  then show ?case by simp
next
  case (Cons k ks)
  show ?case
  proof (cases "getitem b k")
    case (Inl e)
    show ?thesis
    proof (cases "\<exists>x. e = KeyError x")
      case True
      then obtain x where e: "e = KeyError x" by blast
      with Inl Cons.prems have "diff_loop a b ks acc = Inr ds" by simp
      from Cons.IH [OF this] Inl e show ?thesis by simp
    next
      case False
      with Inl have "diff_loop a b (k # ks) acc = Inl e" by (cases e) simp_all
      with Cons.prems show ?thesis by simp
    qed
  next
    case (Inr n)
    show ?thesis
    proof (cases "getitem a k")
      case (Inl e)
      show ?thesis
      proof (cases "\<exists>x. e = KeyError x")
        case True
        then obtain x where e: "e = KeyError x" by blast
        with Inl Inr Cons.prems have "diff_loop a b ks acc = Inr ds" by simp
        from Cons.IH [OF this] Inl Inr show ?thesis by simp
      next
        case False
        with Inl Inr have "diff_loop a b (k # ks) acc = Inl e" by (cases e) simp_all
        with Cons.prems show ?thesis by simp
      qed
    next
      case old: (Inr old)
      show ?thesis
      proof (cases "py_eq n old")
        case True
        with Inr old Cons.prems have "diff_loop a b ks acc = Inr ds" by simp
        from Cons.IH [OF this] Inr old True show ?thesis by simp
      next
        case False
        with Inr old Cons.prems have "diff_loop a b ks (acc @ [(k, old, n)]) = Inr ds" by simp
        from Cons.IH [OF this] Inr old False show ?thesis by simp
      qed
    qed
  qed
qed

lemma diff_items_paths:
  assumes "\<forall>p \<in> set ps. \<exists>leaf. getitem a (join_slash p) = Inr leaf"
  shows "diff_items (concat (map (\<lambda>k.
          case getitem b k of
            Inl e \<Rightarrow> []
          | Inr n \<Rightarrow> (case getitem a k of
                        Inl e \<Rightarrow> []
                      | Inr old \<Rightarrow> if \<not> py_eq n old then [(k, old, n)] else [])) (map join_slash ps))) =
     map (\<lambda>p. Item3 (join_slash p) (plain (projr (getitem a (join_slash p))))
                (plain (projr (getitem b (join_slash p)))))
       (filter (\<lambda>p. case getitem b (join_slash p) of
                      Inl e \<Rightarrow> False
                    | Inr n \<Rightarrow> \<not> py_eq n (projr (getitem a (join_slash p)))) ps)"
  using assms
proof (induction ps)
  case Nil
  show ?case by (simp add: diff_items_def)
next
  case (Cons p ps)
  from Cons.prems obtain leaf where leaf: "getitem a (join_slash p) = Inr leaf" by auto
  from Cons.prems have "\<forall>p \<in> set ps. \<exists>leaf. getitem a (join_slash p) = Inr leaf" by simp
  from Cons.IH [OF this] have ih: "diff_items (concat (map (\<lambda>k.
          case getitem b k of
            Inl e \<Rightarrow> []
          | Inr n \<Rightarrow> (case getitem a k of
                        Inl e \<Rightarrow> []
                      | Inr old \<Rightarrow> if \<not> py_eq n old then [(k, old, n)] else [])) (map join_slash ps))) =
     map (\<lambda>p. Item3 (join_slash p) (plain (projr (getitem a (join_slash p))))
                (plain (projr (getitem b (join_slash p)))))
       (filter (\<lambda>p. case getitem b (join_slash p) of
                      Inl e \<Rightarrow> False
                    | Inr n \<Rightarrow> \<not> py_eq n (projr (getitem a (join_slash p)))) ps)" .
  have app: "diff_items (xs @ ys) = diff_items xs @ diff_items ys" for xs ys
    by (simp add: diff_items_def)
  show ?case
  proof (cases "getitem b (join_slash p)")
    case (Inl e)
    with ih show ?thesis by simp
  next
    case (Inr n)
    show ?thesis
    proof (cases "py_eq n leaf")
      case True
      with Inr leaf ih show ?thesis by simp
    next
      case False
      with Inr leaf ih show ?thesis by (simp add: app) (simp add: diff_items_def)
    qed
  qed
qed

text \<open>
  \<^bold>\<open>C7\<close>, as the claim states it, fails: \<^verbatim>\<open>diff\<close> passes over the keys that the other tree
  lacks and \<^verbatim>\<open>apply_diff\<close> only assigns, so these keys stay. With \<open>A\<close> built from
  \<^verbatim>\<open>{"x": 5, "y": 1}\<close> and \<open>B\<close> from \<^verbatim>\<open>{"x": 6}\<close>, applying \<^verbatim>\<open>A.diff(B)\<close> to \<open>A\<close> gives the
  tree of \<^verbatim>\<open>{"x": 6, "y": 1}\<close>, which is not equal to \<open>B\<close> (all of whose keys are keys of \<open>A\<close>).
\<close>

theorem apply_diff_keeps_missing_keys_counterexample:
  "Config_init (Some [(''x'', RInt 5), (''y'', RInt 1)]) None =
     Inr (Config None [(''x'', ConfigInt 5 (Some ''x'')), (''y'', ConfigInt 1 (Some ''y''))]) \<and>
   Config_init (Some [(''x'', RInt 6)]) None = Inr (Config None [(''x'', ConfigInt 6 (Some ''x''))]) \<and>
   diff (Config None [(''x'', ConfigInt 5 (Some ''x'')), (''y'', ConfigInt 1 (Some ''y''))])
        (Config None [(''x'', ConfigInt 6 (Some ''x''))]) =
     Inr [(''x'', ConfigInt 5 (Some ''x''), ConfigInt 6 (Some ''x''))] \<and>
   apply_diff (Config None [(''x'', ConfigInt 5 (Some ''x'')), (''y'', ConfigInt 1 (Some ''y''))])
        (diff_items [(''x'', ConfigInt 5 (Some ''x''), ConfigInt 6 (Some ''x''))]) =
     (Config None [(''x'', ConfigInt 6 (Some ''x'')), (''y'', ConfigInt 1 (Some ''y''))], None) \<and>
   keys (Config None [(''x'', ConfigInt 6 (Some ''x'')), (''y'', ConfigInt 1 (Some ''y''))]) = [''x'', ''y''] \<and>
   keys (Config None [(''x'', ConfigInt 6 (Some ''x''))]) = [''x''] \<and>
   \<not> py_eq (Config None [(''x'', ConfigInt 6 (Some ''x'')), (''y'', ConfigInt 1 (Some ''y''))])
           (Config None [(''x'', ConfigInt 6 (Some ''x''))])"
  by (simp add: diff_def diff_items_def py_eq_def split1_def split_once_def)

text \<open>
  \<^bold>\<open>C7\<close>, amended. For a tree \<open>A\<close> whose keys are non-empty segments and a well-formed tree
  \<open>B\<close> for which \<^verbatim>\<open>A.diff(B)\<close> returns: applying the diff to \<open>A\<close> succeeds, and at every leaf
  key of \<open>A\<close> that \<open>B\<close> holds the result holds \<open>B\<close>'s value (the same plain value, or the
  value \<open>A\<close> had, which \<^verbatim>\<open>==\<close> equates with \<open>B\<close>'s), while at every leaf key of \<open>A\<close> that
  \<open>B\<close> lacks the result holds what \<open>A\<close> held.
\<close>

theorem apply_diff_of_diff:
  assumes "proper_tree (Config pp es)" and "wf_tree b" and "diff (Config pp es) b = Inr ds"
  shows "\<exists>a'. apply_diff (Config pp es) (diff_items ds) = (a', None) \<and>
           (\<forall>k \<in> set (keys (Config pp es)).
              (\<forall>vb. getitem b k = Inr vb \<longrightarrow>
                 (\<exists>va. getitem a' k = Inr va \<and> (plain va = plain vb \<or> py_eq vb va))) \<and>
              ((\<exists>x. getitem b k = Inl (KeyError x)) \<longrightarrow> getitem a' k = getitem (Config pp es) k))"
proof -
  let ?a = "Config pp es"
  let ?all = "leaf_paths ?a"
  let ?changed = "\<lambda>p. case getitem b (join_slash p) of
                      Inl e \<Rightarrow> False
                    | Inr n \<Rightarrow> \<not> py_eq n (projr (getitem ?a (join_slash p)))"
  let ?ps = "filter ?changed ?all"
  let ?nv = "\<lambda>p. plain (projr (getitem b (join_slash p)))"
  let ?ov = "\<lambda>p. plain (projr (getitem ?a (join_slash p)))"
  have keys: "keys ?a = map join_slash ?all" using assms(1) by (rule keys_leaf_paths)
  have look: "\<exists>leaf. getitem ?a (join_slash p) = Inr leaf" if "p \<in> set ?all" for p
    using leaf_paths_lookup [OF assms(1) that] by blast
  from assms(3) have "diff_loop ?a b (map join_slash ?all) [] = Inr ds"
    unfolding diff_def keys .
  from diff_loop_result [OF this] have ds: "ds = concat (map (\<lambda>k.
          case getitem b k of
            Inl e \<Rightarrow> []
          | Inr n \<Rightarrow> (case getitem ?a k of
                        Inl e \<Rightarrow> []
                      | Inr old \<Rightarrow> if \<not> py_eq n old then [(k, old, n)] else [])) (map join_slash ?all))"
    by simp
  have items: "diff_items ds = map (\<lambda>p. Item3 (join_slash p) (?ov p) (?nv p)) ?ps"
    unfolding ds using look by (intro diff_items_paths) blast
  have pre: "\<forall>p \<in> set ?ps. p \<noteq> [] \<and> list_all segment p \<and>
           (\<forall>m. 0 < m \<and> m < length p \<longrightarrow> \<not> leaf_at ?a (join_slash (take m p))) \<and>
           (\<forall>q. \<exists>val. ConfigValue_get (?nv p) q = Inr val \<and> plain val = ?nv p)"
  proof
    fix p assume "p \<in> set ?ps"
    then have p: "p \<in> set ?all" and ch: "?changed p" by simp_all
    from ch obtain n where n: "getitem b (join_slash p) = Inr n"
      by (cases "getitem b (join_slash p)") auto
    have "wf_tree n" using assms(2) n by (rule wf_getitem)
    then have "\<forall>q. \<exists>val. ConfigValue_get (plain n) q = Inr val \<and> plain val = plain n"
      using rewrap by blast
    with n leaf_paths_segments [OF assms(1) p] leaf_paths_lookup [OF assms(1) p]
    show "p \<noteq> [] \<and> list_all segment p \<and>
           (\<forall>m. 0 < m \<and> m < length p \<longrightarrow> \<not> leaf_at ?a (join_slash (take m p))) \<and>
           (\<forall>q. \<exists>val. ConfigValue_get (?nv p) q = Inr val \<and> plain val = ?nv p)"
      by simp
  qed
  have dist: "distinct ?ps" using leaf_paths_distinct [OF assms(1)] by simp
  have free: "\<forall>p \<in> set ?ps. \<forall>q \<in> set ?ps. prefix p q \<longrightarrow> p = q"
    using leaf_paths_prefix_free [OF assms(1)] by auto
  have cfg: "is_Config ?a" by simp
  from apply_diff_paths [where ov = ?ov and nv = ?nv, OF cfg pre dist free] obtain a' where
    ap: "apply_diff ?a (map (\<lambda>p. Item3 (join_slash p) (?ov p) (?nv p)) ?ps) = (a', None)"
    and new: "\<forall>p \<in> set ?ps. \<exists>val. getitem a' (join_slash p) = Inr val \<and> plain val = ?nv p"
    and frame: "\<forall>q x. q \<noteq> [] \<and> list_all segment q \<and> (\<forall>p \<in> set ?ps. \<not> prefix p q \<and> \<not> prefix q p) \<and>
                  getitem ?a (join_slash q) = Inr x \<longrightarrow> getitem a' (join_slash q) = Inr x"
    by blast
  have kept: "getitem a' (join_slash p) = getitem ?a (join_slash p)"
    if p: "p \<in> set ?all" and nc: "\<not> ?changed p" for p
  proof -
    from look [OF p] obtain leaf where leaf: "getitem ?a (join_slash p) = Inr leaf" by blast
    have "\<not> prefix p' p \<and> \<not> prefix p p'" if "p' \<in> set ?ps" for p'
    proof -
      from that have p': "p' \<in> set ?all" and "?changed p'" by simp_all
      with nc have "p' \<noteq> p" by auto
      with leaf_paths_prefix_free [OF assms(1) p' p] leaf_paths_prefix_free [OF assms(1) p p']
      show ?thesis by auto
    qed
    with frame leaf_paths_segments [OF assms(1) p] leaf
    have "getitem a' (join_slash p) = Inr leaf" by blast
    with leaf show ?thesis by simp
  qed
  have main: "(\<forall>vb. getitem b k = Inr vb \<longrightarrow>
                 (\<exists>va. getitem a' k = Inr va \<and> (plain va = plain vb \<or> py_eq vb va))) \<and>
              ((\<exists>x. getitem b k = Inl (KeyError x)) \<longrightarrow> getitem a' k = getitem ?a k)"
    if k: "k \<in> set (keys ?a)" for k
  proof (intro conjI allI impI)
    from k obtain p where p: "p \<in> set ?all" and kp: "k = join_slash p"
      unfolding keys by auto
    from look [OF p] obtain leaf where leaf: "getitem ?a (join_slash p) = Inr leaf" by blast
    {
      fix vb assume vb: "getitem b k = Inr vb"
      show "\<exists>va. getitem a' k = Inr va \<and> (plain va = plain vb \<or> py_eq vb va)"
      proof (cases "?changed p")
        case True
        with p have "p \<in> set ?ps" by simp
        with new obtain val where "getitem a' (join_slash p) = Inr val" "plain val = ?nv p"
          by blast
        with vb kp show ?thesis by simp
      next
        case False
        with vb kp leaf have "py_eq vb leaf" by simp
        moreover from kept [OF p False] leaf kp have "getitem a' k = Inr leaf" by simp
        ultimately show ?thesis by simp
      qed
    }
    {
      assume "\<exists>x. getitem b k = Inl (KeyError x)"
      then have "\<not> ?changed p" using kp by auto
      from kept [OF p this] kp show "getitem a' k = getitem ?a k" by simp
    }
  qed
  from ap main show ?thesis unfolding items by blast
qed

theorem apply_diff_of_diff_witness:
  "proper_tree (Config None [(''x'', ConfigInt 5 (Some ''x'')), (''y'', ConfigInt 1 (Some ''y''))]) \<and>
   wf_tree (Config None [(''x'', ConfigInt 6 (Some ''x''))]) \<and>
   diff (Config None [(''x'', ConfigInt 5 (Some ''x'')), (''y'', ConfigInt 1 (Some ''y''))])
        (Config None [(''x'', ConfigInt 6 (Some ''x''))]) =
     Inr [(''x'', ConfigInt 5 (Some ''x''), ConfigInt 6 (Some ''x''))] \<and>
   (\<exists>a'. apply_diff (Config None [(''x'', ConfigInt 5 (Some ''x'')), (''y'', ConfigInt 1 (Some ''y''))])
          (diff_items [(''x'', ConfigInt 5 (Some ''x''), ConfigInt 6 (Some ''x''))]) = (a', None) \<and>
        (\<exists>va. getitem a' ''x'' = Inr va \<and>
           (plain va = RInt 6 \<or> py_eq (ConfigInt 6 (Some ''x'')) va)) \<and>
        getitem a' ''y'' = Inr (ConfigInt 1 (Some ''y'')))"
proof -
  let ?a = "Config None [(''x'', ConfigInt 5 (Some ''x'')), (''y'', ConfigInt 1 (Some ''y''))]"
  let ?b = "Config None [(''x'', ConfigInt 6 (Some ''x''))]"
  let ?ds = "[(''x'', ConfigInt 5 (Some ''x''), ConfigInt 6 (Some ''x''))]"
  have p: "proper_tree ?a" by (simp add: segment_def)
  have w: "wf_tree ?b" by simp
  have d: "diff ?a ?b = Inr ?ds"
    by (simp add: diff_def py_eq_def split1_def split_once_def)
  have k: "keys ?a = [''x'', ''y'']" by simp
  have bx: "getitem ?b ''x'' = Inr (ConfigInt 6 (Some ''x''))"
    and by': "getitem ?b ''y'' = Inl (KeyError ''y'')"
    and ay: "getitem ?a ''y'' = Inr (ConfigInt 1 (Some ''y''))"
    by (simp_all add: split1_def split_once_def)
  from apply_diff_of_diff [OF p w d] obtain a' where
    ap: "apply_diff ?a (diff_items ?ds) = (a', None)"
    and all: "\<forall>k \<in> set (keys ?a).
              (\<forall>vb. getitem ?b k = Inr vb \<longrightarrow>
                 (\<exists>va. getitem a' k = Inr va \<and> (plain va = plain vb \<or> py_eq vb va))) \<and>
              ((\<exists>x. getitem ?b k = Inl (KeyError x)) \<longrightarrow> getitem a' k = getitem ?a k)"
    by blast
  from all k bx have x: "\<exists>va. getitem a' ''x'' = Inr va \<and>
      (plain va = RInt 6 \<or> py_eq (ConfigInt 6 (Some ''x'')) va)"
    by force
  from all k by' ay have y: "getitem a' ''y'' = Inr (ConfigInt 1 (Some ''y''))"
    by force
  from p w d ap x y show ?thesis by blast
qed

end
